theory Spec2Isabelle
  imports Main "HOL-Library.Sublist" "HOL-Library.AList"
begin

section \<open>Strings\<close>

text \<open>
  A Python string is a sequence of Unicode code points, and a code point is an
  integer, as \<open>ord\<close> gives it. \<open>str\<close> writes a string of ASCII characters as such
  a sequence, \<open>cp\<close> one character.
\<close>

type_synonym codepoint = int

type_synonym pystr = "codepoint list"

definition cp :: "char \<Rightarrow> codepoint" where
  "cp c = of_char c"

definition str :: "string \<Rightarrow> pystr" where
  "str s = map cp s"

text \<open>The explicit classes of the patterns: \<open>[A-Z]\<close>, \<open>[a-z]\<close>, \<open>[0-9]\<close>, \<open>[A-Za-z]\<close>.\<close>

definition is_upper :: "codepoint \<Rightarrow> bool" where
  "is_upper c = (cp CHR ''A'' \<le> c \<and> c \<le> cp CHR ''Z'')"

definition is_lower :: "codepoint \<Rightarrow> bool" where
  "is_lower c = (cp CHR ''a'' \<le> c \<and> c \<le> cp CHR ''z'')"

definition is_digit :: "codepoint \<Rightarrow> bool" where
  "is_digit c = (cp CHR ''0'' \<le> c \<and> c \<le> cp CHR ''9'')"

definition is_alpha :: "codepoint \<Rightarrow> bool" where
  "is_alpha c = (is_lower c \<or> is_upper c)"

definition is_alnum :: "codepoint \<Rightarrow> bool" where
  "is_alnum c = (is_alpha c \<or> is_digit c)"

text \<open>
  What Python takes from the Unicode character database of its runtime, beyond ASCII:
  the lower-case mapping of the character at an index of a string (one to three code
  points; it reads the string because a capital sigma is mapped by its context), the
  decimal digits that \<open>\d\<close> matches, and the alphanumeric characters that \<open>\w\<close> and
  \<open>\b\<close> go by. These tables are a parameter of the model; on ASCII characters
  the model does not consult them.
\<close>

record unicode =
  u_lower :: "pystr \<Rightarrow> nat \<Rightarrow> pystr"
  u_decimal :: "codepoint \<Rightarrow> bool"
  u_alnum :: "codepoint \<Rightarrow> bool"

text \<open>\<open>str.lower()\<close>: an upper-case ASCII letter moves 32 code points up, every other
  ASCII character stays, and a character beyond ASCII is mapped by the tables.\<close>

definition lower_char :: "codepoint \<Rightarrow> codepoint" where
  "lower_char c = (if is_upper c then c + 32 else c)"

definition lower :: "unicode \<Rightarrow> pystr \<Rightarrow> pystr" where
  "lower U s =
     concat (map (\<lambda>i. if s ! i < 128 then [lower_char (s ! i)] else u_lower U s i)
                 [0..<length s])"

text \<open>
  Whitespace, for \<open>\s\<close> and for \<open>str.strip()\<close> alike: the 29 code points for which
  \<open>str.isspace()\<close> holds.
\<close>

definition is_space :: "codepoint \<Rightarrow> bool" where
  "is_space c = (c \<in> set [0x09, 0x0A, 0x0B, 0x0C, 0x0D, 0x1C, 0x1D, 0x1E, 0x1F, 0x20,
     0x85, 0xA0, 0x1680, 0x2000, 0x2001, 0x2002, 0x2003, 0x2004, 0x2005, 0x2006, 0x2007,
     0x2008, 0x2009, 0x200A, 0x2028, 0x2029, 0x202F, 0x205F, 0x3000])"

text \<open>\<open>\d\<close> and \<open>\w\<close>: the ASCII digits, letters and underscore, and beyond ASCII
  what the tables say.\<close>

definition is_decimal :: "unicode \<Rightarrow> codepoint \<Rightarrow> bool" where
  "is_decimal U c = (if c < 128 then is_digit c else u_decimal U c)"

definition is_word :: "unicode \<Rightarrow> codepoint \<Rightarrow> bool" where
  "is_word U c = (if c < 128 then is_alnum c \<or> c = cp CHR ''_'' else u_alnum U c)"

section \<open>Data model\<close>

text \<open>The dataclass \<open>InsuranceCompany\<close> of \<open>scraper.py\<close>, field for field.\<close>

record InsuranceCompany =
  name :: pystr
  address :: pystr
  city :: pystr
  state :: pystr
  zip_code :: pystr
  phone :: pystr
  website :: pystr
  email :: pystr
  rating :: pystr
  review_count :: pystr
  categories :: pystr
  description :: pystr
  source :: pystr
  source_url :: pystr

text \<open>
  \<open>re.sub(r"[^a-z0-9]", "", s)\<close> deletes every character outside the class, which is
  a filter keeping the characters of the class.
\<close>

definition re_sub_non_alnum :: "pystr \<Rightarrow> pystr" where
  "re_sub_non_alnum s = filter (\<lambda>c. is_lower c \<or> is_digit c) s"

definition dedup_key :: "unicode \<Rightarrow> InsuranceCompany \<Rightarrow> pystr" where
  "dedup_key U c =
     (let norm = re_sub_non_alnum (lower U (name c));
          city = re_sub_non_alnum (lower U (city c))
      in norm @ str ''_'' @ city)"



section \<open>Deduplication\<close>

text \<open>
  The nine attribute names the merge loop of \<open>deduplicate\<close> walks through, with
  \<open>getattr\<close> and \<open>setattr\<close> on them.
\<close>

datatype fld = Address | Phone | Website | Email | Rating | Review_count | Categories
  | Description | Zip_code

fun getattr :: "InsuranceCompany \<Rightarrow> fld \<Rightarrow> pystr" where
  "getattr c Address = address c"
| "getattr c Phone = phone c"
| "getattr c Website = website c"
| "getattr c Email = email c"
| "getattr c Rating = rating c"
| "getattr c Review_count = review_count c"
| "getattr c Categories = categories c"
| "getattr c Description = description c"
| "getattr c Zip_code = zip_code c"

fun setattr :: "InsuranceCompany \<Rightarrow> fld \<Rightarrow> pystr \<Rightarrow> InsuranceCompany" where
  "setattr c Address v = c\<lparr>address := v\<rparr>"
| "setattr c Phone v = c\<lparr>phone := v\<rparr>"
| "setattr c Website v = c\<lparr>website := v\<rparr>"
| "setattr c Email v = c\<lparr>email := v\<rparr>"
| "setattr c Rating v = c\<lparr>rating := v\<rparr>"
| "setattr c Review_count v = c\<lparr>review_count := v\<rparr>"
| "setattr c Categories v = c\<lparr>categories := v\<rparr>"
| "setattr c Description v = c\<lparr>description := v\<rparr>"
| "setattr c Zip_code v = c\<lparr>zip_code := v\<rparr>"

definition merge_flds :: "fld list" where
  "merge_flds = [Address, Phone, Website, Email, Rating, Review_count, Categories,
     Description, Zip_code]"

text \<open>One round of the inner loop: a string is falsy exactly when it is empty.\<close>

definition merge_fld :: "InsuranceCompany \<Rightarrow> InsuranceCompany \<Rightarrow> fld \<Rightarrow> InsuranceCompany" where
  "merge_fld company existing f =
     (let existing_val = getattr existing f;
          new_val = getattr company f
      in if existing_val = [] \<and> new_val \<noteq> [] then setattr existing f new_val else existing)"

text \<open>
  The body of the \<open>if key in seen\<close> branch. \<open>company.source not in existing.source\<close>
  is Python's substring test, \<^const>\<open>sublist\<close>. The records of the input list are
  taken to be distinct objects, as the connectors create them.
\<close>

definition merge_into :: "InsuranceCompany \<Rightarrow> InsuranceCompany \<Rightarrow> InsuranceCompany" where
  "merge_into existing company =
     (let existing' = foldl (merge_fld company) existing merge_flds
      in if \<not> sublist (source company) (source existing')
         then existing'\<lparr>source := source existing' @ str '', '' @ source company\<rparr>
         else existing')"

text \<open>
  The dictionary \<open>seen\<close> keeps its keys in insertion order, and \<open>list(seen.values())\<close>
  reads them in that order: an association list, where \<^const>\<open>AList.update\<close> replaces
  the value of a present key in place and appends an absent one at the end. Mutating
  the retained object is an update of the value stored under its key.
\<close>

fun dedup_loop :: "unicode \<Rightarrow> (pystr \<times> InsuranceCompany) list \<Rightarrow> InsuranceCompany list
    \<Rightarrow> (pystr \<times> InsuranceCompany) list" where
  "dedup_loop U seen [] = seen"
| "dedup_loop U seen (company # results) =
     (let key = dedup_key U company
      in case map_of seen key of
           Some existing \<Rightarrow>
             dedup_loop U (AList.update key (merge_into existing company) seen) results
         | None \<Rightarrow> dedup_loop U (AList.update key company seen) results)"

definition deduplicate :: "unicode \<Rightarrow> InsuranceCompany list \<Rightarrow> InsuranceCompany list" where
  "deduplicate U results = map snd (dedup_loop U [] results)"


definition key_group :: "unicode \<Rightarrow> pystr \<Rightarrow> InsuranceCompany list \<Rightarrow> InsuranceCompany list" where
  "key_group U k results = filter (\<lambda>c. dedup_key U c = k) results"

text \<open>
  The entries of a comma-joined source field, as \<open>save_results\<close> reads them with
  \<open>c.source.split(", ")\<close>; the first argument collects the current entry, reversed.
\<close>

fun split_comma :: "pystr \<Rightarrow> pystr \<Rightarrow> pystr list" where
  "split_comma acc [] = [rev acc]"
| "split_comma acc [c] = [rev (c # acc)]"
| "split_comma acc (c # d # cs) =
     (if c = cp CHR '','' \<and> d = cp CHR '' '' then rev acc # split_comma [] cs
      else split_comma (c # acc) (d # cs))"

definition source_entries :: "pystr \<Rightarrow> pystr list" where
  "source_entries s = split_comma [] s"

text \<open>The defaults of the dataclass, with the required name left empty.\<close>

definition empty_company :: InsuranceCompany where
  "empty_company = \<lparr>name = [], address = [], city = [], state = str ''CA'', zip_code = [],
     phone = [], website = [], email = [], rating = [], review_count = [], categories = [],
     description = [], source = [], source_url = []\<rparr>"



section \<open>Regular expressions\<close>

text \<open>
  The patterns of the source are run by Python's backtracking matcher. A position is
  the character just before the cursor (none at the start of the text) and the text
  still to read. \<open>matches r p\<close> lists the positions where a match of \<open>r\<close> that starts
  at \<open>p\<close> can end, in the order the matcher tries them: a greedy repetition takes one
  more round before it tries to stop, an alternative tries its left branch first. The
  match the matcher reports is the head of the list. \<open>WordB w\<close> is \<open>\b\<close> for the
  word characters \<open>w\<close>.
\<close>

type_synonym pos = "codepoint option \<times> pystr"

datatype regex = Lit codepoint | Cls "codepoint \<Rightarrow> bool" | Seq regex regex | Alt regex regex
  | Eps | Star regex | WordB "codepoint \<Rightarrow> bool"

definition word_before :: "(codepoint \<Rightarrow> bool) \<Rightarrow> pos \<Rightarrow> bool" where
  "word_before w p = (case fst p of None \<Rightarrow> False | Some c \<Rightarrow> w c)"

definition word_after :: "(codepoint \<Rightarrow> bool) \<Rightarrow> pos \<Rightarrow> bool" where
  "word_after w p = (case snd p of [] \<Rightarrow> False | c # _ \<Rightarrow> w c)"

text \<open>
  A repetition of at most \<open>n\<close> rounds; a round that reads nothing is not repeated, so
  as many rounds as there are characters left is every round there can be.
\<close>

fun star_n :: "nat \<Rightarrow> (pos \<Rightarrow> pos list) \<Rightarrow> pos \<Rightarrow> pos list" where
  "star_n 0 f p = [p]"
| "star_n (Suc n) f p =
     concat (map (star_n n f) (filter (\<lambda>q. length (snd q) < length (snd p)) (f p))) @ [p]"

primrec matches :: "regex \<Rightarrow> pos \<Rightarrow> pos list" where
  "matches (Lit c) p = (case snd p of [] \<Rightarrow> [] | x # xs \<Rightarrow> if x = c then [(Some x, xs)] else [])"
| "matches (Cls P) p = (case snd p of [] \<Rightarrow> [] | x # xs \<Rightarrow> if P x then [(Some x, xs)] else [])"
| "matches (Seq a b) p = concat (map (matches b) (matches a p))"
| "matches (Alt a b) p = matches a p @ matches b p"
| "matches Eps p = [p]"
| "matches (Star a) p = star_n (length (snd p)) (matches a) p"
| "matches (WordB w) p = (if word_before w p \<noteq> word_after w p then [p] else [])"

definition Plus :: "regex \<Rightarrow> regex" where
  "Plus r = Seq r (Star r)"

definition Opt :: "regex \<Rightarrow> regex" where
  "Opt r = Alt r Eps"

text \<open>The text read between two positions of the same input.\<close>

definition consumed :: "pos \<Rightarrow> pos \<Rightarrow> pystr" where
  "consumed p q = take (length (snd p) - length (snd q)) (snd p)"

text \<open>
  A pattern \<open>pre(grp)post\<close> with one capturing group, matched at a position: the text
  of the group in the first match found, that is \<open>m.group(1)\<close>.
\<close>

definition match_group :: "regex \<Rightarrow> regex \<Rightarrow> regex \<Rightarrow> pos \<Rightarrow> pystr option" where
  "match_group pre grp post p =
     (case concat (map (\<lambda>p1. concat (map (\<lambda>p2. map (\<lambda>p3. consumed p1 p2) (matches post p2))
                                  (matches grp p1)))
                   (matches pre p)) of
        [] \<Rightarrow> None
      | g # _ \<Rightarrow> Some g)"

text \<open>\<open>re.search\<close>: the first start position, from the left, where the pattern matches.\<close>

fun search_from :: "(pos \<Rightarrow> pystr option) \<Rightarrow> codepoint option \<Rightarrow> pystr \<Rightarrow> pystr option" where
  "search_from m prev [] = m (prev, [])"
| "search_from m prev (c # cs) =
     (case m (prev, c # cs) of Some g \<Rightarrow> Some g | None \<Rightarrow> search_from m (Some c) cs)"

definition re_search :: "(pos \<Rightarrow> pystr option) \<Rightarrow> pystr \<Rightarrow> pystr option" where
  "re_search m s = search_from m None s"

text \<open>
  \<open>re.findall\<close> for a pattern without groups: the matches from left to right, the
  search going on where the last match ended. The counter is the number of characters
  of the last match still to step over.
\<close>

fun findall_from :: "regex \<Rightarrow> nat \<Rightarrow> codepoint option \<Rightarrow> pystr \<Rightarrow> pystr list" where
  "findall_from r k prev [] = (case matches r (prev, []) of [] \<Rightarrow> [] | q # _ \<Rightarrow> [[]])"
| "findall_from r (Suc k) prev (c # cs) = findall_from r k (Some c) cs"
| "findall_from r 0 prev (c # cs) =
     (case matches r (prev, c # cs) of
        [] \<Rightarrow> findall_from r 0 (Some c) cs
      | q # _ \<Rightarrow> consumed (prev, c # cs) q
                 # findall_from r (length (consumed (prev, c # cs) q) - 1) (Some c) cs)"

definition re_findall :: "regex \<Rightarrow> pystr \<Rightarrow> pystr list" where
  "re_findall r s = findall_from r 0 None s"

section \<open>Field extractors\<close>

definition strip :: "pystr \<Rightarrow> pystr" where
  "strip s = rev (dropWhile is_space (rev (dropWhile is_space s)))"

text \<open>\<open>,\s*([A-Za-z\s]+),\s*CA\<close> and \<open>,\s*([A-Za-z\s]+)\s+CA\<close>\<close>

definition city_pre :: regex where
  "city_pre = Seq (Lit (cp CHR '','')) (Star (Cls is_space))"

definition city_grp :: regex where
  "city_grp = Plus (Cls (\<lambda>c. is_alpha c \<or> is_space c))"

definition city_post_comma :: regex where
  "city_post_comma = Seq (Lit (cp CHR '','')) (Seq (Star (Cls is_space))
     (Seq (Lit (cp CHR ''C'')) (Lit (cp CHR ''A''))))"

definition city_post_space :: regex where
  "city_post_space = Seq (Plus (Cls is_space)) (Seq (Lit (cp CHR ''C'')) (Lit (cp CHR ''A'')))"

definition extract_city_from_address :: "pystr \<Rightarrow> pystr" where
  "extract_city_from_address addr =
     (if addr = [] then []
      else case re_search (match_group city_pre city_grp city_post_comma) addr of
             Some g \<Rightarrow> strip g
           | None \<Rightarrow>
               (case re_search (match_group city_pre city_grp city_post_space) addr of
                  Some g \<Rightarrow> strip g
                | None \<Rightarrow> []))"

text \<open>\<open>\b(\d{5}(?:-\d{4})?)\b\<close>\<close>

definition digits4 :: "unicode \<Rightarrow> regex" where
  "digits4 U = Seq (Cls (is_decimal U)) (Seq (Cls (is_decimal U))
     (Seq (Cls (is_decimal U)) (Cls (is_decimal U))))"

definition zip_grp :: "unicode \<Rightarrow> regex" where
  "zip_grp U = Seq (Cls (is_decimal U)) (Seq (digits4 U) (Opt (Seq (Lit (cp CHR ''-'')) (digits4 U))))"

definition extract_zip :: "unicode \<Rightarrow> pystr \<Rightarrow> pystr" where
  "extract_zip U addr =
     (case re_search (match_group (WordB (is_word U)) (zip_grp U) (WordB (is_word U))) addr of
        Some g \<Rightarrow> g
      | None \<Rightarrow> [])"

text \<open>\<open>[a-zA-Z0-9._%+-]+@[a-zA-Z0-9.-]+\.[a-zA-Z]{2,}\<close>\<close>

definition email_local :: "codepoint \<Rightarrow> bool" where
  "email_local c = (is_alnum c \<or> c \<in> set (str ''._%+-''))"

definition email_domain :: "codepoint \<Rightarrow> bool" where
  "email_domain c = (is_alnum c \<or> c \<in> set (str ''.-''))"

definition email_re :: regex where
  "email_re = Seq (Plus (Cls email_local)) (Seq (Lit (cp CHR ''@'')) (Seq (Plus (Cls email_domain))
     (Seq (Lit (cp CHR ''.'')) (Seq (Cls is_alpha) (Seq (Cls is_alpha) (Star (Cls is_alpha)))))))"

definition junk :: "pystr list" where
  "junk = map str [''example.com'', ''sentry'', ''webpack'', ''wixpress'', ''wix.com'',
     ''squarespace'', ''wordpress'', ''google.com'', ''schema.org'',
     ''w3.org'', ''sentry.io'', ''cloudflare'', ''jquery'', ''bootstrap'',
     ''placeholder'', ''yourdomain'', ''email.com'', ''domain.com'',
     ''test.com'', ''noreply'', ''no-reply'', ''yoursite'', ''change.me'',
     ''company.com'', ''sample.com'', ''.png'', ''.jpg'', ''.gif'', ''.svg'']"

text \<open>The two loops of \<open>extract_emails\<close> in \<open>enrich_sf.py\<close>, each with its accumulators.\<close>

definition filter_step :: "unicode \<Rightarrow> pystr list \<Rightarrow> pystr \<Rightarrow> pystr list" where
  "filter_step U filtered em =
     (let em_lower = lower U em
      in if \<not> list_ex (\<lambda>j. sublist j em_lower) junk \<and> length em < 80
         then filtered @ [em] else filtered)"

definition seen_step :: "unicode \<Rightarrow> pystr set \<times> pystr list \<Rightarrow> pystr \<Rightarrow> pystr set \<times> pystr list" where
  "seen_step U st em =
     (case st of (seen, result) \<Rightarrow>
        if lower U em \<notin> seen then (insert (lower U em) seen, result @ [em]) else (seen, result))"

definition extract_emails :: "unicode \<Rightarrow> pystr \<Rightarrow> pystr list" where
  "extract_emails U html =
     (let raw = re_findall email_re html;
          filtered = foldl (filter_step U) [] raw
      in snd (foldl (seen_step U) ({}, []) filtered))"

text \<open>
  The specification's words: keep the first of the entries that agree up to case, in
  the order of first appearance.
\<close>

fun dedup_ci :: "unicode \<Rightarrow> pystr list \<Rightarrow> pystr list" where
  "dedup_ci U [] = []"
| "dedup_ci U (x # xs) = x # dedup_ci U (filter (\<lambda>y. lower U y \<noteq> lower U x) xs)"

section \<open>Enrichment\<close>

text \<open>
  The network is outside the program. A request either raises (a page that cannot be
  parsed counts as raising: the \<open>try\<close> block is left before it has changed
  anything) or answers with a status code, a body, the final URL after redirects and
  what BeautifulSoup's \<open>soup.find("meta", {"name": "description"})\<close> finds in that
  body: no tag, or a tag with or without a \<open>content\<close> attribute. The answer depends
  on the URL and on how many requests were sent before, so the same URL may answer
  differently each time.
\<close>

datatype fetch_result = Raises | Response int pystr pystr "pystr option option"

type_synonym net = "nat \<Rightarrow> pystr \<Rightarrow> fetch_result"

subsection \<open>\<open>enrich_from_websites\<close> of \<open>scraper.py\<close>\<close>

definition scraper_junk :: "pystr list" where
  "scraper_junk = map str [''example.com'', ''sentry'', ''webpack'', ''wixpress'']"

text \<open>The loop over \<open>email_matches\<close> that stops at the first address it accepts.\<close>

fun first_business_email :: "unicode \<Rightarrow> pystr list \<Rightarrow> pystr option" where
  "first_business_email U [] = None"
| "first_business_email U (em # email_matches) =
     (if \<not> list_ex (\<lambda>x. sublist x (lower U em)) scraper_junk then Some em
      else first_business_email U email_matches)"

text \<open>What the \<open>try\<close> block does to a record once the page has answered with status 200.\<close>

definition enrich_company :: "unicode \<Rightarrow> pystr \<Rightarrow> pystr option option \<Rightarrow> InsuranceCompany
    \<Rightarrow> InsuranceCompany" where
  "enrich_company U body meta company =
     (let company1 =
            (if email company = [] then
               (case first_business_email U (re_findall email_re body) of
                  Some em \<Rightarrow> company\<lparr>email := em\<rparr>
                | None \<Rightarrow> company)
             else company)
      in if description company1 = [] then
           (case meta of
              Some content \<Rightarrow>
                company1\<lparr>description := take 500 (case content of Some s \<Rightarrow> s | None \<Rightarrow> [])\<rparr>
            | None \<Rightarrow> company1)
         else company1)"

text \<open>
  The \<open>try\<close> block for one record, as request number \<open>n\<close>: the record afterwards, and
  whether the line \<open>enriched += 1\<close> was reached. A request that raises and a status other
  than 200 leave both the record and the counter alone.
\<close>

definition visit :: "unicode \<Rightarrow> net \<Rightarrow> nat \<Rightarrow> InsuranceCompany \<Rightarrow> InsuranceCompany \<times> bool" where
  "visit U net n company =
     (case net n (website company) of
        Raises \<Rightarrow> (company, False)
      | Response status body final meta \<Rightarrow>
          if status \<noteq> 200 then (company, False)
          else (enrich_company U body meta company, True))"

definition eligible :: "InsuranceCompany \<Rightarrow> bool" where
  "eligible company = (website company \<noteq> [] \<and> prefix (str ''http'') (website company))"

text \<open>
  The loop over \<open>companies\<close>, with the counter \<open>enriched\<close> and the list of the URLs
  requested so far. It returns the records, the counter and the requests sent.
\<close>

fun enrich_loop :: "unicode \<Rightarrow> net \<Rightarrow> nat \<Rightarrow> pystr list \<Rightarrow> InsuranceCompany list
    \<Rightarrow> InsuranceCompany list \<times> nat \<times> pystr list" where
  "enrich_loop U net enriched sent [] = ([], enriched, sent)"
| "enrich_loop U net enriched sent (company # companies) =
     (if \<not> eligible company then
        (case enrich_loop U net enriched sent companies of
           (out, e, l) \<Rightarrow> (company # out, e, l))
      else if enriched \<ge> 200 then (company # companies, enriched, sent)
      else
        (case visit U net (length sent) company of
           (company', counted) \<Rightarrow>
             (case enrich_loop U net (if counted then enriched + 1 else enriched)
                     (sent @ [website company]) companies of
                (out, e, l) \<Rightarrow> (company' # out, e, l))))"

definition enrich_from_websites :: "unicode \<Rightarrow> net \<Rightarrow> InsuranceCompany list
    \<Rightarrow> InsuranceCompany list \<times> nat \<times> pystr list" where
  "enrich_from_websites U net companies = enrich_loop U net 0 [] companies"

subsection \<open>\<open>scrape_website_for_email\<close> and phase 2 of \<open>enrich_sf.py\<close>\<close>

definition contact_suffixes :: "pystr list" where
  "contact_suffixes = map str [''/contact'', ''/contact-us'', ''/about'', ''/about-us'',
     ''/contactus'']"

text \<open>The loop over the suffixes; it returns the address and the requests sent.\<close>

fun try_suffixes :: "unicode \<Rightarrow> net \<Rightarrow> pystr \<Rightarrow> pystr list \<Rightarrow> pystr list \<Rightarrow> pystr \<times> pystr list" where
  "try_suffixes U net base sent [] = ([], sent)"
| "try_suffixes U net base sent (sfx # rest) =
     (case net (length sent) (base @ sfx) of
        Raises \<Rightarrow> try_suffixes U net base (sent @ [base @ sfx]) rest
      | Response status body final meta \<Rightarrow>
          if status = 200 then
            (case extract_emails U body of
               e # _ \<Rightarrow> (e, sent @ [base @ sfx])
             | [] \<Rightarrow> try_suffixes U net base (sent @ [base @ sfx]) rest)
          else try_suffixes U net base (sent @ [base @ sfx]) rest)"

text \<open>
  \<open>base_of\<close> stands for \<open>urlparse\<close>: the scheme and host of a URL, joined as
  \<open>scheme://netloc\<close>, or nothing when \<open>urlparse\<close> raises.
\<close>

definition scrape_website_for_email :: "unicode \<Rightarrow> (pystr \<Rightarrow> pystr option) \<Rightarrow> net \<Rightarrow> pystr
    \<Rightarrow> pystr \<times> pystr list" where
  "scrape_website_for_email U base_of net site =
     (if site = [] \<or> \<not> prefix (str ''http'') site then ([], [])
      else
        (case net 0 site of
           Raises \<Rightarrow> ([], [site])
         | Response status body final meta \<Rightarrow>
             if status \<noteq> 200 then ([], [site])
             else
               (case extract_emails U body of
                  e # _ \<Rightarrow> (e, [site])
                | [] \<Rightarrow>
                    (case base_of final of
                       None \<Rightarrow> ([], [site])
                     | Some base \<Rightarrow> try_suffixes U net base [site] contact_suffixes))))"

text \<open>
  The rows that \<open>main\<close> collects in \<open>sf_indices\<close>: the city is \<open>San Francisco\<close> or
  begins with \<open>SF\<close> and a blank, and the source mentions \<open>Google Maps\<close>.
\<close>

definition sf_row :: "InsuranceCompany \<Rightarrow> bool" where
  "sf_row row =
     ((prefix (str ''SF '') (city row) \<or> city row = str ''San Francisco'')
      \<and> sublist (str ''Google Maps'') (source row))"

text \<open>
  Phase 2 of \<open>main\<close> for one row of the CSV file, whose columns are the fields of
  the record, as phase 1 has left it: a row outside \<open>sf_indices\<close> or without a
  website is not in \<open>sites_to_check\<close>, and a row with an address is passed over.
  It returns the row and the requests sent for it.
\<close>

definition phase2_row :: "unicode \<Rightarrow> (pystr \<Rightarrow> pystr option) \<Rightarrow> net \<Rightarrow> InsuranceCompany
    \<Rightarrow> InsuranceCompany \<times> pystr list" where
  "phase2_row U base_of net row =
     (if \<not> sf_row row \<or> website row = [] then (row, [])
      else if email row \<noteq> [] then (row, [])
      else
        (case scrape_website_for_email U base_of net (website row) of
           (e, sent) \<Rightarrow> (if e \<noteq> [] then row\<lparr>email := e\<rparr> else row, sent)))"

text \<open>What a request yields for the search of an address: the addresses of a page that
  answered with status 200, nothing otherwise.\<close>

definition yields :: "unicode \<Rightarrow> net \<Rightarrow> nat \<Rightarrow> pystr \<Rightarrow> pystr list" where
  "yields U net n u =
     (case net n u of
        Raises \<Rightarrow> []
      | Response status body final meta \<Rightarrow> if status = 200 then extract_emails U body else [])"


section \<open>Auxiliary notions and sample data\<close>

text \<open>
  The invariant of the dictionary \<open>seen\<close>: no key twice, and every record is stored
  under its own identity key.
\<close>

definition keys_ok :: "unicode \<Rightarrow> (pystr \<times> InsuranceCompany) list \<Rightarrow> bool" where
  "keys_ok U seen = (distinct (map fst seen) \<and> (\<forall>(k, c) \<in> set seen. dedup_key U c = k))"

text \<open>A ZIP code: five digits, or five digits, a hyphen and four digits.\<close>

definition zip_shaped :: "unicode \<Rightarrow> pystr \<Rightarrow> bool" where
  "zip_shaped U z =
     (list_all (is_decimal U) (take 5 z)
      \<and> (length z = 5
          \<or> (length z = 10 \<and> z ! 5 = cp CHR ''-'' \<and> list_all (is_decimal U) (drop 6 z))))"

text \<open>A string without whitespace at either end.\<close>

definition stripped :: "pystr \<Rightarrow> bool" where
  "stripped s = (s = [] \<or> (\<not> is_space (hd s) \<and> \<not> is_space (last s)))"

text \<open>The test of the filtering loop of \<open>extract_emails\<close>, as the source has it.\<close>

definition email_kept :: "unicode \<Rightarrow> pystr \<Rightarrow> bool" where
  "email_kept U em = (\<not> list_ex (\<lambda>j. sublist j (lower U em)) junk \<and> length em < 80)"

text \<open>
  The specification's words for \<open>extract_emails\<close>: a match is dropped when its
  lower-case form contains a junk entry or when it exceeds 80 characters.
\<close>

definition extract_emails_as_claimed :: "unicode \<Rightarrow> pystr \<Rightarrow> pystr list" where
  "extract_emails_as_claimed U html =
     dedup_ci U (filter (\<lambda>em. \<not> list_ex (\<lambda>j. sublist j (lower U em)) junk \<and> \<not> length em > 80)
       (re_findall email_re html))"

text \<open>
  What enrichment may do to a record \<open>c\<close>, giving \<open>c'\<close>: nothing but \<open>email\<close> and
  \<open>description\<close> differ, neither was overwritten, and a new description is the content
  of the page's meta tag cut at 500 characters.
\<close>

definition enrich_frame :: "net \<Rightarrow> InsuranceCompany \<Rightarrow> InsuranceCompany \<Rightarrow> bool" where
  "enrich_frame net c c' =
     (c' = c\<lparr>email := email c', description := description c'\<rparr>
      \<and> (email c \<noteq> [] \<longrightarrow> email c' = email c)
      \<and> (description c \<noteq> [] \<longrightarrow> description c' = description c)
      \<and> (description c' \<noteq> description c \<longrightarrow>
           length (description c') \<le> 500
           \<and> (\<exists>n body final content.
                 net n (website c) = Response 200 body final (Some content)
                 \<and> description c' = take 500 (case content of Some s \<Rightarrow> s | None \<Rightarrow> []))))"

text \<open>
  Where \<open>enrich_from_websites\<close> takes a new address from: the first accepted match in
  the body of a page that the website of the record itself answered with status 200.
\<close>

definition email_from_main_page :: "unicode \<Rightarrow> net \<Rightarrow> InsuranceCompany \<Rightarrow> InsuranceCompany \<Rightarrow> bool" where
  "email_from_main_page U net c c' =
     (email c' \<noteq> email c \<longrightarrow>
        (\<exists>n body final meta.
           net n (website c) = Response 200 body final meta
           \<and> first_business_email U (re_findall email_re body) = Some (email c')))"

text \<open>A network on which no request is ever answered with status 200.\<close>

definition never_200 :: "net \<Rightarrow> bool" where
  "never_200 net = (\<forall>n u. case net n u of Raises \<Rightarrow> True
     | Response status body final meta \<Rightarrow> status \<noteq> 200)"

text \<open>A network on which every request is answered with status 200.\<close>

definition always_200 :: "net \<Rightarrow> bool" where
  "always_200 net = (\<forall>n u. case net n u of Raises \<Rightarrow> False
     | Response status body final meta \<Rightarrow> status = 200)"

text \<open>
  Sample tables: those of the runtime on the Latin-1 characters, with the capital I
  with a dot above (U+0130), the Kelvin sign (U+212A) and the Arabic-Indic digits
  (U+0660 to U+0669).
\<close>

definition sample_unicode :: unicode where
  "sample_unicode =
     \<lparr>u_lower = (\<lambda>s i. let c = s ! i in
          if 0xC0 \<le> c \<and> c \<le> 0xDE \<and> c \<noteq> 0xD7 then [c + 32]
          else if c = 0x130 then [0x69, 0x307]
          else if c = 0x212A then [0x6B]
          else [c]),
      u_decimal = (\<lambda>c. 0x660 \<le> c \<and> c \<le> 0x669),
      u_alnum = (\<lambda>c. c \<in> set [0xAA, 0xB2, 0xB3, 0xB5, 0xB9, 0xBA, 0xBC, 0xBD, 0xBE]
          \<or> (0xC0 \<le> c \<and> c \<le> 0xFF \<and> c \<noteq> 0xD7 \<and> c \<noteq> 0xF7)
          \<or> c = 0x130 \<or> c = 0x212A \<or> (0x660 \<le> c \<and> c \<le> 0x669))\<rparr>"

text \<open>The two records of the end-to-end scenario, and the record they merge into.\<close>

definition acme_a :: InsuranceCompany where
  "acme_a = empty_company\<lparr>name := str ''Acme Insurance'', city := str ''Oakland'',
     source := str ''A'', phone := str ''555-1111''\<rparr>"

definition acme_b :: InsuranceCompany where
  "acme_b = empty_company\<lparr>name := str ''ACME INSURANCE'', city := str ''Oakland'',
     source := str ''B'', website := str ''http://acme.test''\<rparr>"

definition acme_ab :: InsuranceCompany where
  "acme_ab = acme_a\<lparr>website := str ''http://acme.test'', source := str ''A, B''\<rparr>"

text \<open>Two records whose names differ by a leading Kelvin sign.\<close>

definition kelvin :: InsuranceCompany where
  "kelvin = empty_company\<lparr>name := 0x212A # str ''elvin Insurance''\<rparr>"

definition elvin :: InsuranceCompany where
  "elvin = empty_company\<lparr>name := str ''elvin Insurance''\<rparr>"

text \<open>Two sightings of one business whose source labels are \<open>Yellow Pages\<close> and \<open>Yellow\<close>.\<close>

definition yellow_pages :: InsuranceCompany where
  "yellow_pages = empty_company\<lparr>name := str ''Acme Insurance'', city := str ''Oakland'',
     source := str ''Yellow Pages''\<rparr>"

definition yellow :: InsuranceCompany where
  "yellow = empty_company\<lparr>name := str ''Acme Insurance'', city := str ''Oakland'',
     source := str ''Yellow''\<rparr>"

text \<open>An address of exactly 80 characters.\<close>

definition long_address :: pystr where
  "long_address =
     str ''aaaaaaaaaaaaaaaaaaaaaaaaaaaaaaaaaaaaaaaaaaaaaaaaaaaaaaaaaaaaaaaaaaaaaaaa@biz.com''"

text \<open>
  A record with a website, and the same record as a row of \<open>sf_indices\<close>; a network
  that answers every request with status 503; one whose main page carries a
  description and no address while the contact page carries an address; and one
  whose main page carries nothing and whose other pages are missing.
\<close>

definition acme_site :: InsuranceCompany where
  "acme_site = empty_company\<lparr>name := str ''Acme Insurance'', website := str ''http://acme.test''\<rparr>"

definition acme_sf :: InsuranceCompany where
  "acme_sf = acme_site\<lparr>city := str ''San Francisco'', source := str ''Google Maps''\<rparr>"

definition net_down :: net where
  "net_down n u = Response 503 [] u None"

definition main_page :: pystr where
  "main_page = str ''<html><meta name=description content=Commercial-insurance-brokers>Welcome</html>''"

definition net_contact :: net where
  "net_contact n u =
     (if u = str ''http://acme.test''
        then Response 200 main_page u (Some (Some (str ''Commercial-insurance-brokers'')))
      else if u = str ''http://acme.test/contact''
        then Response 200 (str ''<a href=mailto:info@acme.test>mail</a>'') u None
      else Response 404 [] u None)"

text \<open>
  A record whose address and description are already known, and a network whose main
  page answers without an address while every other page is missing.
\<close>

definition acme_full :: InsuranceCompany where
  "acme_full = acme_site\<lparr>email := str ''boss@acme.test'', description := str ''Brokers''\<rparr>"

definition net_plain :: net where
  "net_plain n u =
     (if u = str ''http://acme.test'' then Response 200 (str ''<html>Welcome</html>'') u None
      else Response 404 [] u None)"

text \<open>A network whose every page holds an address.\<close>

definition net_mail :: net where
  "net_mail n u = Response 200 (str ''<p>info@acme.test</p>'') u None"


section \<open>The identity key\<close>

lemma str_eq_Nil [simp]: "str s = [] \<longleftrightarrow> s = []"
  by (simp add: str_def)

lemma length_str [simp]: "length (str s) = length s"
  by (simp add: str_def)










text \<open>
  Beyond ASCII the lower-case mapping decides: a leading Kelvin sign becomes the
  letter \<open>k\<close> of the key.
\<close>

lemma dedup_key_kelvin:
  "dedup_key sample_unicode kelvin = str ''kelvininsurance_''"
  "dedup_key sample_unicode elvin = str ''elvininsurance_''"
  by code_simp+

section \<open>The merge of duplicates\<close>

lemma merge_fld_frame:
  "name (merge_fld c e f) = name e" "city (merge_fld c e f) = city e"
  "state (merge_fld c e f) = state e" "source_url (merge_fld c e f) = source_url e"
  "source (merge_fld c e f) = source e"
  by (cases f; simp add: merge_fld_def Let_def)+


lemma foldl_merge_fld_frame:
  "name (foldl (merge_fld c) e fs) = name e \<and> city (foldl (merge_fld c) e fs) = city e
   \<and> state (foldl (merge_fld c) e fs) = state e
   \<and> source_url (foldl (merge_fld c) e fs) = source_url e
   \<and> source (foldl (merge_fld c) e fs) = source e"
  by (induction fs arbitrary: e) (simp_all add: merge_fld_frame)




lemma merge_into_frame:
  "name (merge_into e c) = name e" "city (merge_into e c) = city e"
  "state (merge_into e c) = state e" "source_url (merge_into e c) = source_url e"
  by (simp_all add: merge_into_def Let_def foldl_merge_fld_frame)

lemma source_merge_into:
  "source (merge_into e c) =
     (if sublist (source c) (source e) then source e else source e @ str '', '' @ source c)"
  by (simp add: merge_into_def Let_def foldl_merge_fld_frame)

lemma dedup_key_merge_into: "dedup_key U (merge_into e c) = dedup_key U e"
  by (simp add: dedup_key_def merge_into_frame)

lemma foldl_merge_into_frame:
  "name (foldl merge_into e cs) = name e \<and> city (foldl merge_into e cs) = city e
   \<and> state (foldl merge_into e cs) = state e
   \<and> source_url (foldl merge_into e cs) = source_url e"
  by (induction cs arbitrary: e) (simp_all add: merge_into_frame)



lemma map_of_dedup_loop:
  "map_of (dedup_loop U seen xs) k =
     (case map_of seen k of
        Some e \<Rightarrow> Some (foldl merge_into e (key_group U k xs))
      | None \<Rightarrow> (case key_group U k xs of [] \<Rightarrow> None | r # rs \<Rightarrow> Some (foldl merge_into r rs)))"
proof (induction xs arbitrary: seen)
  case Nil
  then show ?case by (simp add: key_group_def split: option.splits)
next
  case (Cons x xs)
  show ?case
  proof (cases "map_of seen (dedup_key U x)")
    case None
    then show ?thesis
      by (auto simp: Cons.IH Let_def update_conv' key_group_def split: option.splits list.splits)
  next
    case (Some ex)
    then show ?thesis
      by (auto simp: Cons.IH Let_def update_conv' key_group_def split: option.splits list.splits)
  qed
qed



lemma set_update_cases:
  "(k', r) \<in> set (AList.update k v al) \<Longrightarrow> (k', r) = (k, v) \<or> (k', r) \<in> set al"
  by (induction al) (auto split: if_splits)

lemma keys_ok_update:
  assumes "keys_ok U seen" and "dedup_key U v = k"
  shows "keys_ok U (AList.update k v seen)"
proof -
  have "distinct (map fst (AList.update k v seen))"
    using assms(1) by (simp add: keys_ok_def distinct_update)
  moreover have "dedup_key U c = k'" if "(k', c) \<in> set (AList.update k v seen)" for k' c
    using set_update_cases[OF that] assms by (auto simp: keys_ok_def)
  ultimately show ?thesis
    by (auto simp: keys_ok_def)
qed

lemma keys_ok_lookup: "keys_ok U seen \<Longrightarrow> map_of seen k = Some c \<Longrightarrow> dedup_key U c = k"
  by (auto simp: keys_ok_def dest: map_of_SomeD)

lemma keys_ok_dedup_loop: "keys_ok U seen \<Longrightarrow> keys_ok U (dedup_loop U seen xs)"
proof (induction xs arbitrary: seen)
  case Nil
  then show ?case by simp
next
  case (Cons x xs)
  show ?case
  proof (cases "map_of seen (dedup_key U x)")
    case None
    have "keys_ok U (AList.update (dedup_key U x) x seen)"
      using Cons.prems by (rule keys_ok_update) simp
    then show ?thesis
      using None by (simp add: Let_def Cons.IH)
  next
    case (Some ex)
    have "dedup_key U (merge_into ex x) = dedup_key U x"
      using keys_ok_lookup[OF Cons.prems Some] by (simp add: dedup_key_merge_into)
    then have "keys_ok U (AList.update (dedup_key U x) (merge_into ex x) seen)"
      using Cons.prems by (intro keys_ok_update)
    then show ?thesis
      using Some by (simp add: Let_def Cons.IH)
  qed
qed

lemma keys_ok_Nil: "keys_ok U []"
  by (simp add: keys_ok_def)

lemma update_absent: "k \<notin> fst ` set al \<Longrightarrow> AList.update k v al = al @ [(k, v)]"
  by (induction al) auto

lemma map_of_absent: "k \<notin> fst ` set al \<Longrightarrow> map_of al k = None"
  by (simp add: map_of_eq_None_iff)

lemma dedup_loop_distinct_keys:
  "keys_ok U (s0 @ s) \<Longrightarrow> dedup_loop U s0 (map snd s) = s0 @ s"
proof (induction s arbitrary: s0)
  case Nil
  then show ?case by simp
next
  case (Cons kc s)
  obtain k c where kc: "kc = (k, c)" by (cases kc)
  from Cons.prems kc have key: "dedup_key U c = k" and absent: "k \<notin> fst ` set s0"
    by (auto simp: keys_ok_def)
  have "keys_ok U ((s0 @ [(k, c)]) @ s)"
    using Cons.prems kc by simp
  from Cons.IH[OF this] show ?case
    using kc key absent by (simp add: Let_def map_of_absent update_absent)
qed

lemma acme_merged:
  "deduplicate U [acme_a, acme_b] = [acme_ab]"
  by code_simp

text \<open>
  Claim C2. Deduplication is idempotent: deduplicating the output of a deduplication
  returns that output, record for record and field for field.
\<close>

theorem deduplicate_idempotent: "deduplicate U (deduplicate U results) = deduplicate U results"
proof -
  have "keys_ok U ([] @ dedup_loop U [] results)"
    by (simp add: keys_ok_dedup_loop keys_ok_Nil)
  from dedup_loop_distinct_keys[OF this] show ?thesis
    by (simp add: deduplicate_def)
qed

theorem deduplicate_idempotent_witness:
  "deduplicate sample_unicode (deduplicate sample_unicode [acme_a, acme_b]) = [acme_ab]"
  using deduplicate_idempotent [of sample_unicode "[acme_a, acme_b]"] by (simp add: acme_merged)








lemma find_key_group: "key_group U k results = r # rs \<Longrightarrow> find (\<lambda>c. dedup_key U c = k) results = Some r"
  by (induction results) (auto simp: key_group_def split: if_splits)

lemma keys_ok_entry: "keys_ok U s \<Longrightarrow> (k, c) \<in> set s \<Longrightarrow> dedup_key U c = k \<and> map_of s k = Some c"
  by (auto simp: keys_ok_def)

text \<open>
  Claim C10. Deduplication changes nothing but the nine mergeable fields and the source
  field: every record of the output has the name, city, state and source URL of the
  first record of the input with its key, so the source URL never becomes that of a
  later record of the group.
\<close>

theorem deduplicate_keeps_first_identity:
  assumes "out \<in> set (deduplicate U results)"
  shows "\<exists>first. find (\<lambda>c. dedup_key U c = dedup_key U out) results = Some first
     \<and> name out = name first \<and> city out = city first \<and> state out = state first
     \<and> source_url out = source_url first
     \<and> out = first\<lparr>address := address out, phone := phone out, website := website out,
         email := email out, rating := rating out, review_count := review_count out,
         categories := categories out, description := description out,
         zip_code := zip_code out, source := source out\<rparr>"
proof -
  let ?s = "dedup_loop U [] results"
  from assms obtain k where mem: "(k, out) \<in> set ?s"
    by (auto simp: deduplicate_def)
  have ok: "keys_ok U ?s"
    by (simp add: keys_ok_dedup_loop keys_ok_Nil)
  from keys_ok_entry[OF ok mem] have key: "dedup_key U out = k" and look: "map_of ?s k = Some out"
    by simp_all
  from look obtain a rest where grp: "key_group U k results = a # rest"
    and out: "out = foldl merge_into a rest"
    by (auto simp: map_of_dedup_loop split: list.splits)
  have found: "find (\<lambda>c. dedup_key U c = dedup_key U out) results = Some a"
    using find_key_group[OF grp] key by simp
  have frame: "name out = name a" "city out = city a" "state out = state a"
    "source_url out = source_url a"
    using foldl_merge_into_frame[of a rest] out by simp_all
  then have "out = a\<lparr>address := address out, phone := phone out, website := website out,
         email := email out, rating := rating out, review_count := review_count out,
         categories := categories out, description := description out,
         zip_code := zip_code out, source := source out\<rparr>"
    by (intro InsuranceCompany.equality) simp_all
  with found frame show ?thesis
    by blast
qed

theorem deduplicate_keeps_first_identity_witness:
  "acme_ab \<in> set (deduplicate sample_unicode [acme_a, acme_b])
   \<and> find (\<lambda>c. dedup_key sample_unicode c = dedup_key sample_unicode acme_ab) [acme_a, acme_b] = Some acme_a
   \<and> name acme_ab = name acme_a \<and> source_url acme_ab = source_url acme_a"
proof -
  have h: "acme_ab \<in> set (deduplicate sample_unicode [acme_a, acme_b])"
    by (simp add: acme_merged)
  have f: "find (\<lambda>c. dedup_key sample_unicode c = dedup_key sample_unicode acme_ab) [acme_a, acme_b] = Some acme_a"
    by code_simp
  from deduplicate_keeps_first_identity [where U = sample_unicode, OF h] f
  have "name acme_ab = name acme_a \<and> source_url acme_ab = source_url acme_a"
    by auto
  with h f show ?thesis
    by blast
qed

lemma split_comma_sublist: "e \<in> set (split_comma acc s) \<Longrightarrow> sublist e (rev acc @ s)"
proof (induction acc s rule: split_comma.induct)
  case (1 acc)
  then show ?case by simp
next
  case (2 acc c)
  then show ?case by simp
next
  case (3 acc c d cs)
  show ?case
  proof (cases "c = cp CHR '','' \<and> d = cp CHR '' ''")
    case True
    with "3.prems" have "e = rev acc \<or> e \<in> set (split_comma [] cs)"
      by simp
    then show ?thesis
    proof
      assume "e = rev acc"
      then show ?thesis by simp
    next
      assume "e \<in> set (split_comma [] cs)"
      with "3.IH"(1) True have "sublist e cs"
        by simp
      then obtain ps ss where "cs = ps @ e @ ss"
        by (auto simp: sublist_def)
      then have "rev acc @ c # d # cs = (rev acc @ c # d # ps) @ e @ ss"
        by simp
      then show ?thesis
        unfolding sublist_def by blast
    qed
  next
    case False
    with "3.prems" have "e \<in> set (split_comma (c # acc) (d # cs))"
      by auto
    with "3.IH"(2) False have "sublist e (rev (c # acc) @ d # cs)"
      by blast
    then show ?thesis by simp
  qed
qed

lemma entry_is_substring: "e \<in> set (source_entries s) \<Longrightarrow> sublist e s"
  using split_comma_sublist[of e "[]" s] by (simp add: source_entries_def)

text \<open>
  Claim C4, as the source has it. When the key of an incoming record is already in the
  dictionary, the loop goes on with the merged record stored under that key. The merge
  appends a comma, a space and the incoming source label to the source field of the
  retained record unless the label occurs in that field as a substring; a label that is
  one of the comma-separated entries of the field occurs in it, and is not appended.
  The two records of the scenario merge into one record with source \<open>A, B\<close>, phone
  \<open>555-1111\<close> and website \<open>http://acme.test\<close>.
\<close>

theorem merge_appends_source_unless_substring:
  "(map_of seen (dedup_key U company) = Some existing \<longrightarrow>
      dedup_loop U seen (company # rest)
        = dedup_loop U (AList.update (dedup_key U company) (merge_into existing company) seen) rest)
   \<and> source (merge_into existing company)
       = (if sublist (source company) (source existing) then source existing
          else source existing @ str '', '' @ source company)
   \<and> (source company \<in> set (source_entries (source existing))
        \<longrightarrow> source (merge_into existing company) = source existing)
   \<and> (\<exists>out. deduplicate U [acme_a, acme_b] = [out] \<and> source out = str ''A, B''
          \<and> phone out = str ''555-1111'' \<and> website out = str ''http://acme.test'')"
proof -
  have ex: "\<exists>out. deduplicate U [acme_a, acme_b] = [out] \<and> source out = str ''A, B''
          \<and> phone out = str ''555-1111'' \<and> website out = str ''http://acme.test''"
    by (simp add: acme_merged) (simp add: acme_ab_def acme_a_def empty_company_def)
  show ?thesis
    using ex entry_is_substring[of "source company" "source existing"]
    by (simp add: source_merge_into Let_def)
qed

theorem merge_appends_source_unless_substring_witness:
  "map_of [(dedup_key sample_unicode acme_b, acme_ab)] (dedup_key sample_unicode acme_b) = Some acme_ab
   \<and> source acme_b \<in> set (source_entries (source acme_ab))
   \<and> dedup_loop sample_unicode [(dedup_key sample_unicode acme_b, acme_ab)] [acme_b]
       = [(dedup_key sample_unicode acme_b, merge_into acme_ab acme_b)]
   \<and> source (merge_into acme_ab acme_b) = str ''A, B''"
proof -
  have h1: "map_of [(dedup_key sample_unicode acme_b, acme_ab)] (dedup_key sample_unicode acme_b) = Some acme_ab"
    by simp
  have h2: "source acme_b \<in> set (source_entries (source acme_ab))"
    by code_simp
  have s: "source acme_ab = str ''A, B''"
    by (simp add: acme_ab_def)
  note m = merge_appends_source_unless_substring
      [where U = sample_unicode and seen = "[(dedup_key sample_unicode acme_b, acme_ab)]"
        and company = acme_b and existing = acme_ab and rest = "[]"]
  from m h1 have "dedup_loop sample_unicode [(dedup_key sample_unicode acme_b, acme_ab)] [acme_b]
      = dedup_loop sample_unicode (AList.update (dedup_key sample_unicode acme_b) (merge_into acme_ab acme_b)
          [(dedup_key sample_unicode acme_b, acme_ab)]) []"
    by blast
  then have loop: "dedup_loop sample_unicode [(dedup_key sample_unicode acme_b, acme_ab)] [acme_b]
      = [(dedup_key sample_unicode acme_b, merge_into acme_ab acme_b)]"
    by simp
  from m h2 have "source (merge_into acme_ab acme_b) = source acme_ab"
    by blast
  with s have "source (merge_into acme_ab acme_b) = str ''A, B''"
    by simp
  with h1 h2 loop show ?thesis
    by blast
qed

text \<open>
  The claim as worded fails: the label \<open>Yellow\<close> is not an entry of the source field
  \<open>Yellow Pages\<close>, and the merge does not append it.
\<close>

theorem source_label_not_entry_not_appended:
  "source yellow \<notin> set (source_entries (source yellow_pages))
   \<and> deduplicate sample_unicode [yellow_pages, yellow] = [yellow_pages]
   \<and> source yellow_pages \<noteq> source yellow_pages @ str '', '' @ source yellow"
  by code_simp


section \<open>The field extractors\<close>

lemma in_matches_Cls:
  "q \<in> set (matches (Cls P) p) \<longleftrightarrow> (\<exists>c. snd p = c # snd q \<and> P c \<and> fst q = Some c)"
  by (cases q) (auto split: list.splits)

lemma in_matches_Lit:
  "q \<in> set (matches (Lit c) p) \<longleftrightarrow> (snd p = c # snd q \<and> fst q = Some c)"
  by (cases q) (auto split: list.splits)

lemma in_matches_Seq:
  "q \<in> set (matches (Seq a b) p) \<longleftrightarrow> (\<exists>m \<in> set (matches a p). q \<in> set (matches b m))"
  by auto

lemma in_matches_Opt:
  "q \<in> set (matches (Opt r) p) \<longleftrightarrow> (q \<in> set (matches r p) \<or> q = p)"
  by (auto simp: Opt_def)

lemma in_matches_Plus:
  "q \<in> set (matches (Plus r) p)
     \<longleftrightarrow> (\<exists>m \<in> set (matches r p). q \<in> set (star_n (length (snd m)) (matches r) m))"
  by (auto simp: Plus_def)

declare matches.simps [simp del]

lemma consumed_append: "snd p = xs @ snd q \<Longrightarrow> consumed p q = xs"
  by (simp add: consumed_def)

lemma match_group_SomeD:
  assumes "match_group pre grp post p = Some g"
  shows "\<exists>p1 p2 p3. p1 \<in> set (matches pre p) \<and> p2 \<in> set (matches grp p1)
           \<and> p3 \<in> set (matches post p2) \<and> g = consumed p1 p2"
proof -
  let ?all = "concat (map (\<lambda>p1. concat (map (\<lambda>p2. map (\<lambda>p3. consumed p1 p2) (matches post p2))
                                  (matches grp p1))) (matches pre p))"
  from assms obtain rest where "?all = g # rest"
    by (auto simp: match_group_def split: list.splits)
  then have "g \<in> set ?all"
    by simp
  then obtain p1 where p1: "p1 \<in> set (matches pre p)"
    and "g \<in> set (concat (map (\<lambda>p2. map (\<lambda>p3. consumed p1 p2) (matches post p2))
                                (matches grp p1)))"
    by auto
  then obtain p2 where p2: "p2 \<in> set (matches grp p1)"
    and "g \<in> set (map (\<lambda>p3. consumed p1 p2) (matches post p2))"
    by auto
  then obtain p3 where "p3 \<in> set (matches post p2)" "g = consumed p1 p2"
    by auto
  with p1 p2 show ?thesis
    by blast
qed

lemma search_from_SomeD: "search_from m prev s = Some g \<Longrightarrow> \<exists>p. m p = Some g"
  by (induction s arbitrary: prev) (auto split: option.splits)

lemma re_search_SomeD: "re_search m s = Some g \<Longrightarrow> \<exists>p. m p = Some g"
  unfolding re_search_def by (rule search_from_SomeD)

lemma digits4_reads:
  assumes "q \<in> set (matches (digits4 U) p)"
  shows "\<exists>xs. snd p = xs @ snd q \<and> length xs = 4 \<and> list_all (is_decimal U) xs"
proof -
  from assms obtain p1 p2 p3 where "p1 \<in> set (matches (Cls (is_decimal U)) p)"
    "p2 \<in> set (matches (Cls (is_decimal U)) p1)" "p3 \<in> set (matches (Cls (is_decimal U)) p2)"
    "q \<in> set (matches (Cls (is_decimal U)) p3)"
    unfolding digits4_def in_matches_Seq by blast
  then obtain a b c d where "snd p = a # b # c # d # snd q"
    "is_decimal U a" "is_decimal U b" "is_decimal U c" "is_decimal U d"
    unfolding in_matches_Cls by force
  then have "snd p = [a, b, c, d] @ snd q \<and> length [a, b, c, d] = 4 \<and> list_all (is_decimal U) [a, b, c, d]"
    by simp
  then show ?thesis
    by blast
qed

lemma zip_grp_reads:
  assumes "q \<in> set (matches (zip_grp U) p)"
  shows "\<exists>xs. snd p = xs @ snd q \<and> zip_shaped U xs"
proof -
  from assms obtain p1 p2 where p1: "p1 \<in> set (matches (Cls (is_decimal U)) p)"
    and p2: "p2 \<in> set (matches (digits4 U) p1)"
    and q: "q \<in> set (matches (Opt (Seq (Lit (cp CHR ''-'')) (digits4 U))) p2)"
    unfolding zip_grp_def in_matches_Seq by blast
  from p1 obtain a where a: "snd p = a # snd p1" "is_decimal U a"
    unfolding in_matches_Cls by blast
  from digits4_reads[OF p2] obtain ys where ys: "snd p1 = ys @ snd p2" "length ys = 4"
    "list_all (is_decimal U) ys"
    by blast
  from q have "q = p2 \<or> q \<in> set (matches (Seq (Lit (cp CHR ''-'')) (digits4 U)) p2)"
    unfolding in_matches_Opt by blast
  then show ?thesis
  proof
    assume "q = p2"
    with a ys have "snd p = (a # ys) @ snd q \<and> zip_shaped U (a # ys)"
      by (simp add: zip_shaped_def)
    then show ?thesis by blast
  next
    assume "q \<in> set (matches (Seq (Lit (cp CHR ''-'')) (digits4 U)) p2)"
    then obtain p3 where "p3 \<in> set (matches (Lit (cp CHR ''-'')) p2)"
      and q4: "q \<in> set (matches (digits4 U) p3)"
      unfolding in_matches_Seq by blast
    then have p3: "snd p2 = (cp CHR ''-'') # snd p3"
      unfolding in_matches_Lit by simp
    from digits4_reads[OF q4] obtain zs where zs: "snd p3 = zs @ snd q" "length zs = 4"
      "list_all (is_decimal U) zs"
      by blast
    with a ys p3 have "snd p = (a # ys @ (cp CHR ''-'') # zs) @ snd q
        \<and> zip_shaped U (a # ys @ (cp CHR ''-'') # zs)"
      by (simp add: zip_shaped_def nth_append)
    then show ?thesis by blast
  qed
qed

lemma extract_zip_shape: "extract_zip U a = [] \<or> zip_shaped U (extract_zip U a)"
proof (cases "re_search (match_group (WordB (is_word U)) (zip_grp U) (WordB (is_word U))) a")
  case None
  then show ?thesis by (simp add: extract_zip_def)
next
  case (Some g)
  from re_search_SomeD[OF Some] obtain p where "match_group (WordB (is_word U)) (zip_grp U) (WordB (is_word U)) p = Some g"
    by blast
  from match_group_SomeD[OF this] obtain p1 p2 where "p2 \<in> set (matches (zip_grp U) p1)"
    and g: "g = consumed p1 p2"
    by blast
  from zip_grp_reads[OF this(1)] g have "zip_shaped U g"
    by (auto simp: consumed_append)
  with Some show ?thesis by (simp add: extract_zip_def)
qed

lemma star_n_reads:
  "q \<in> set (star_n n (matches (Cls P)) p) \<Longrightarrow> \<exists>xs. snd p = xs @ snd q \<and> list_all P xs"
proof (induction n arbitrary: p)
  case 0
  then show ?case by simp
next
  case (Suc n)
  from Suc.prems have "q = p \<or> (\<exists>m \<in> set (matches (Cls P) p). q \<in> set (star_n n (matches (Cls P)) m))"
    by auto
  then show ?case
  proof
    assume "q = p"
    then show ?thesis by simp
  next
    assume "\<exists>m \<in> set (matches (Cls P) p). q \<in> set (star_n n (matches (Cls P)) m)"
    then obtain m where "m \<in> set (matches (Cls P) p)"
      and q: "q \<in> set (star_n n (matches (Cls P)) m)"
      by blast
    then obtain c where m: "snd p = c # snd m" "P c"
      unfolding in_matches_Cls by blast
    from Suc.IH[OF q] obtain xs where "snd m = xs @ snd q" "list_all P xs"
      by blast
    with m have "snd p = (c # xs) @ snd q \<and> list_all P (c # xs)"
      by simp
    then show ?thesis by blast
  qed
qed

lemma city_grp_reads:
  assumes "q \<in> set (matches city_grp p)"
  shows "\<exists>xs. snd p = xs @ snd q \<and> list_all (\<lambda>c. is_alpha c \<or> is_space c) xs"
proof -
  let ?P = "\<lambda>c. is_alpha c \<or> is_space c"
  from assms obtain m where "m \<in> set (matches (Cls ?P) p)"
    and q: "q \<in> set (star_n (length (snd m)) (matches (Cls ?P)) m)"
    unfolding city_grp_def in_matches_Plus by blast
  then obtain c where m: "snd p = c # snd m" "?P c"
    unfolding in_matches_Cls by blast
  from star_n_reads[OF q] obtain xs where "snd m = xs @ snd q" "list_all ?P xs"
    by blast
  with m have "snd p = (c # xs) @ snd q \<and> list_all ?P (c # xs)"
    by simp
  then show ?thesis by blast
qed

lemma city_group_chars:
  assumes "re_search (match_group city_pre city_grp post) a = Some g"
  shows "list_all (\<lambda>c. is_alpha c \<or> is_space c) g"
proof -
  from re_search_SomeD[OF assms] obtain p where "match_group city_pre city_grp post p = Some g"
    by blast
  from match_group_SomeD[OF this] obtain p1 p2 where "p2 \<in> set (matches city_grp p1)"
    and g: "g = consumed p1 p2"
    by blast
  from city_grp_reads[OF this(1)] g show ?thesis
    by (auto simp: consumed_append)
qed

lemma stripped_Nil: "stripped []"
  by (simp add: stripped_def)

lemma set_strip: "set (strip s) \<subseteq> set s"
proof -
  have "set (strip s) \<subseteq> set (dropWhile is_space s)"
    unfolding strip_def using set_dropWhileD by fastforce
  also have "\<dots> \<subseteq> set s"
    using set_dropWhileD by fastforce
  finally show ?thesis .
qed

lemma stripped_strip: "stripped (strip s)"
proof (cases "strip s = []")
  case True
  then show ?thesis by (simp add: stripped_def)
next
  case False
  let ?ys = "dropWhile is_space s"
  let ?zs = "dropWhile is_space (rev ?ys)"
  from False have zs: "?zs \<noteq> []"
    by (simp add: strip_def)
  then have "\<not> is_space (hd ?zs)"
    by (rule hd_dropWhile)
  then have last: "\<not> is_space (last (strip s))"
    using zs by (simp add: strip_def last_rev)
  have "rev ?ys = takeWhile is_space (rev ?ys) @ ?zs"
    by simp
  then have "?ys = rev ?zs @ rev (takeWhile is_space (rev ?ys))"
    by (metis rev_append rev_rev_ident)
  then have "hd ?ys = hd (rev ?zs)"
    using zs by (metis hd_append2 rev_is_Nil_conv)
  moreover have "\<not> is_space (hd ?ys)"
  proof (rule hd_dropWhile)
    show "?ys \<noteq> []"
    proof
      assume "?ys = []"
      then have "?zs = []"
        by (simp only: rev.simps dropWhile.simps)
      with zs show False ..
    qed
  qed
  ultimately have "\<not> is_space (hd (strip s))"
    by (simp add: strip_def)
  with last show ?thesis
    by (simp add: stripped_def)
qed

lemma extract_city_shape:
  "list_all (\<lambda>c. is_alpha c \<or> is_space c) (extract_city_from_address a)
   \<and> stripped (extract_city_from_address a)"
proof -
  have chars: "list_all (\<lambda>c. is_alpha c \<or> is_space c) (strip g)"
    if "re_search (match_group city_pre city_grp post) a = Some g" for post g
    using city_group_chars[OF that] set_strip[of g] by (auto simp: list_all_iff)
  show ?thesis
    by (auto simp: extract_city_from_address_def chars stripped_strip stripped_Nil
        split: option.splits)
qed


lemma star_n_splits:
  assumes "\<And>p q. q \<in> set (f p) \<Longrightarrow> \<exists>xs. snd p = xs @ snd q"
  shows "q \<in> set (star_n n f p) \<Longrightarrow> \<exists>xs. snd p = xs @ snd q"
proof (induction n arbitrary: p)
  case 0
  then show ?case by simp
next
  case (Suc n)
  from Suc.prems have "q = p \<or> (\<exists>m \<in> set (f p). q \<in> set (star_n n f m))"
    by auto
  then show ?case
  proof
    assume "q = p"
    then show ?thesis by simp
  next
    assume "\<exists>m \<in> set (f p). q \<in> set (star_n n f m)"
    then obtain m where m: "m \<in> set (f p)" and q: "q \<in> set (star_n n f m)"
      by blast
    from assms[OF m] obtain xs where xs: "snd p = xs @ snd m"
      by blast
    from Suc.IH[OF q] obtain ys where "snd m = ys @ snd q"
      by blast
    with xs have "snd p = (xs @ ys) @ snd q"
      by simp
    then show ?thesis by blast
  qed
qed

lemma matches_splits: "q \<in> set (matches r p) \<Longrightarrow> \<exists>xs. snd p = xs @ snd q"
proof (induction r arbitrary: p q)
  case (Lit c)
  then show ?case unfolding in_matches_Lit by simp
next
  case (Cls P)
  then show ?case unfolding in_matches_Cls by auto
next
  case (Seq a b)
  from Seq.prems obtain m where m: "m \<in> set (matches a p)" and q: "q \<in> set (matches b m)"
    unfolding in_matches_Seq by blast
  from Seq.IH(1)[OF m] obtain xs where xs: "snd p = xs @ snd m"
    by blast
  from Seq.IH(2)[OF q] obtain ys where "snd m = ys @ snd q"
    by blast
  with xs have "snd p = (xs @ ys) @ snd q"
    by simp
  then show ?case by blast
next
  case (Alt a b)
  from Alt.prems have "q \<in> set (matches a p) \<or> q \<in> set (matches b p)"
    by (simp add: matches.simps)
  with Alt.IH show ?case by blast
next
  case Eps
  then show ?case by (simp add: matches.simps)
next
  case (Star a)
  from Star.prems have "q \<in> set (star_n (length (snd p)) (matches a) p)"
    by (simp add: matches.simps)
  then show ?case
    using Star.IH by (rule star_n_splits[rotated])
next
  case (WordB w)
  then show ?case by (simp add: matches.simps split: if_splits)
qed

lemma match_group_sublist:
  assumes "match_group pre grp post p = Some g"
  shows "sublist g (snd p)"
proof -
  from match_group_SomeD[OF assms] obtain p1 p2 where p1: "p1 \<in> set (matches pre p)"
    and p2: "p2 \<in> set (matches grp p1)" and g: "g = consumed p1 p2"
    by blast
  from matches_splits[OF p1] obtain xs where xs: "snd p = xs @ snd p1"
    by blast
  from matches_splits[OF p2] obtain ys where ys: "snd p1 = ys @ snd p2"
    by blast
  from g ys have "g = ys"
    by (simp add: consumed_append)
  with xs ys have "snd p = xs @ g @ snd p2"
    by simp
  then show ?thesis
    unfolding sublist_def by blast
qed

lemma search_from_suffix:
  "search_from m prev s = Some g \<Longrightarrow> \<exists>p. m p = Some g \<and> suffix (snd p) s"
proof (induction s arbitrary: prev)
  case Nil
  then show ?case by auto
next
  case (Cons c cs)
  show ?case
  proof (cases "m (prev, c # cs)")
    case None
    with Cons.prems have "search_from m (Some c) cs = Some g"
      by simp
    from Cons.IH[OF this] obtain p where "m p = Some g" "suffix (snd p) cs"
      by blast
    then have "m p = Some g \<and> suffix (snd p) (c # cs)"
      by (simp add: suffix_Cons)
    then show ?thesis by blast
  next
    case (Some g')
    with Cons.prems have "m (prev, c # cs) = Some g \<and> suffix (snd (prev, c # cs)) (c # cs)"
      by simp
    then show ?thesis by blast
  qed
qed

lemma re_search_group_sublist:
  assumes "re_search (match_group pre grp post) s = Some g"
  shows "sublist g s"
proof -
  from assms obtain p where m: "match_group pre grp post p = Some g" and suf: "suffix (snd p) s"
    unfolding re_search_def using search_from_suffix by blast
  from match_group_sublist[OF m] obtain ps ss where "snd p = ps @ g @ ss"
    by (auto simp: sublist_def)
  moreover from suf obtain zs where "s = zs @ snd p"
    by (auto simp: suffix_def)
  ultimately have "s = (zs @ ps) @ g @ ss"
    by simp
  then show ?thesis
    unfolding sublist_def by blast
qed

lemma strip_sublist: "sublist (strip s) s"
proof -
  let ?ys = "dropWhile is_space s"
  let ?zs = "dropWhile is_space (rev ?ys)"
  have "rev ?ys = takeWhile is_space (rev ?ys) @ ?zs"
    by simp
  then have ys: "?ys = rev ?zs @ rev (takeWhile is_space (rev ?ys))"
    by (metis rev_append rev_rev_ident)
  have "s = takeWhile is_space s @ ?ys"
    by simp
  with ys have "s = takeWhile is_space s @ rev ?zs @ rev (takeWhile is_space (rev ?ys))"
    by simp
  then show ?thesis
    unfolding sublist_def strip_def by blast
qed

lemma extract_zip_sublist: "sublist (extract_zip U a) a"
  by (auto simp: extract_zip_def re_search_group_sublist split: option.splits)

lemma extract_city_sublist: "sublist (extract_city_from_address a) a"
proof -
  have "sublist (strip g) a" if "re_search (match_group pre grp post) a = Some g" for pre grp post g
    using strip_sublist[of g] re_search_group_sublist[OF that] sublist_order.order_trans
    by blast
  then show ?thesis
    by (auto simp: extract_city_from_address_def split: option.splits)
qed

lemma extract_examples:
  "extract_city_from_address (str ''123 Main St, Oakland, CA 94607'') = str ''Oakland''"
  "extract_zip U (str ''123 Main St, Oakland, CA 94607'') = str ''94607''"
  by code_simp+

text \<open>
  Beyond ASCII: a no-break space before the state is whitespace for the pattern, a
  no-break space inside the city stays in it, and an accented letter just before the
  digits is a word character, so that no word boundary opens the ZIP code.
\<close>

lemma extract_beyond_ascii:
  "extract_city_from_address (str ''1 Main St, Oakland,'' @ [0xA0] @ str ''CA 94607'') = str ''Oakland''"
  "extract_city_from_address (str ''1 Main St, San'' @ [0xA0] @ str ''Jose, CA'')
     = str ''San'' @ [0xA0] @ str ''Jose''"
  "extract_zip sample_unicode (0xE9 # str ''94607'') = []"
  "extract_zip sample_unicode (str ''CA '' @ [0x661, 0x662, 0x663, 0x664, 0x665])
     = [0x661, 0x662, 0x663, 0x664, 0x665]"
  by code_simp+

lemma city_pre_comma:
  assumes "q \<in> set (matches city_pre p)"
  shows "cp CHR '','' \<in> set (snd p)"
proof -
  from assms obtain m where "m \<in> set (matches (Lit (cp CHR '','')) p)"
    unfolding city_pre_def in_matches_Seq by blast
  then have "snd p = cp CHR '','' # snd m"
    unfolding in_matches_Lit by simp
  then show ?thesis
    by simp
qed

lemma city_search_comma:
  assumes "re_search (match_group city_pre city_grp post) a = Some g"
  shows "cp CHR '','' \<in> set a"
proof -
  from assms obtain p where m: "match_group city_pre city_grp post p = Some g"
    and suf: "suffix (snd p) a"
    unfolding re_search_def using search_from_suffix by blast
  from match_group_SomeD[OF m] obtain p1 where "p1 \<in> set (matches city_pre p)"
    by blast
  from city_pre_comma[OF this] suf show ?thesis
    using set_mono_suffix by blast
qed

lemma extract_city_needs_comma:
  "cp CHR '','' \<notin> set a \<Longrightarrow> extract_city_from_address a = []"
  by (auto simp: extract_city_from_address_def split: option.splits dest: city_search_comma)

lemma extract_zip_needs_digit:
  assumes "\<not> list_ex (is_decimal U) a"
  shows "extract_zip U a = []"
proof (rule ccontr)
  assume ne: "extract_zip U a \<noteq> []"
  with extract_zip_shape[of U a] have z: "zip_shaped U (extract_zip U a)"
    by blast
  with ne have "is_decimal U (hd (extract_zip U a))"
    by (cases "extract_zip U a") (auto simp: zip_shaped_def)
  moreover have "hd (extract_zip U a) \<in> set a"
    using ne extract_zip_sublist[of U a] set_mono_sublist hd_in_set by blast
  ultimately show False
    using assms by (auto simp: list_ex_iff)
qed

text \<open>
  Claim C9. \<open>extract_city_from_address\<close> and \<open>extract_zip\<close> are total functions of
  the string they are given, with no failing branch: the source calls \<open>re.search\<close> on
  a string and reads a group that every match has. Where no pattern matches they
  return the empty string, as they do for an address without a comma and for an
  address without a digit. What \<open>extract_zip\<close> returns is empty or a whole ZIP code,
  five digits (the characters that \<open>\d\<close> matches) with or without a hyphen and four
  more digits; what
  \<open>extract_city_from_address\<close> returns is made of letters and whitespace with no
  whitespace at either end; both are pieces of the address. On
  \<open>123 Main St, Oakland, CA 94607\<close> they return \<open>Oakland\<close> and \<open>94607\<close>.
\<close>

theorem extractors_total_and_well_formed:
  "(re_search (match_group (WordB (is_word U)) (zip_grp U) (WordB (is_word U))) a = None
      \<longrightarrow> extract_zip U a = [])
   \<and> (extract_zip U a = [] \<or> zip_shaped U (extract_zip U a))
   \<and> sublist (extract_zip U a) a
   \<and> (re_search (match_group city_pre city_grp city_post_comma) a = None
        \<and> re_search (match_group city_pre city_grp city_post_space) a = None
        \<longrightarrow> extract_city_from_address a = [])
   \<and> list_all (\<lambda>c. is_alpha c \<or> is_space c) (extract_city_from_address a)
   \<and> stripped (extract_city_from_address a)
   \<and> sublist (extract_city_from_address a) a
   \<and> (cp CHR '','' \<notin> set a \<longrightarrow> extract_city_from_address a = [])
   \<and> (\<not> list_ex (is_decimal U) a \<longrightarrow> extract_zip U a = [])
   \<and> extract_city_from_address (str ''123 Main St, Oakland, CA 94607'') = str ''Oakland''
   \<and> extract_zip U (str ''123 Main St, Oakland, CA 94607'') = str ''94607''"
proof -
  have "re_search (match_group (WordB (is_word U)) (zip_grp U) (WordB (is_word U))) a = None
      \<longrightarrow> extract_zip U a = []"
    by (simp add: extract_zip_def)
  moreover have "re_search (match_group city_pre city_grp city_post_comma) a = None
        \<and> re_search (match_group city_pre city_grp city_post_space) a = None
        \<longrightarrow> extract_city_from_address a = []"
    by (simp add: extract_city_from_address_def)
  ultimately show ?thesis
    using extract_zip_shape[of U a] extract_city_shape[of a] extract_zip_sublist[of U a]
      extract_city_sublist[of a] extract_examples(1) extract_examples(2)[of U]
      extract_city_needs_comma[of a]
      extract_zip_needs_digit[of U a]
    by blast
qed

theorem extractors_total_and_well_formed_witness:
  "re_search (match_group (WordB (is_word sample_unicode)) (zip_grp sample_unicode)
       (WordB (is_word sample_unicode))) (str ''PO Box Reno NV'') = None
   \<and> re_search (match_group city_pre city_grp city_post_comma) (str ''PO Box Reno NV'') = None
   \<and> re_search (match_group city_pre city_grp city_post_space) (str ''PO Box Reno NV'') = None
   \<and> cp CHR '','' \<notin> set (str ''PO Box Reno NV'')
   \<and> \<not> list_ex (is_decimal sample_unicode) (str ''PO Box Reno NV'')
   \<and> extract_zip sample_unicode (str ''PO Box Reno NV'') = []
   \<and> extract_city_from_address (str ''PO Box Reno NV'') = []"
proof -
  have h: "re_search (match_group (WordB (is_word sample_unicode)) (zip_grp sample_unicode)
       (WordB (is_word sample_unicode))) (str ''PO Box Reno NV'') = None"
    "re_search (match_group city_pre city_grp city_post_comma) (str ''PO Box Reno NV'') = None"
    "re_search (match_group city_pre city_grp city_post_space) (str ''PO Box Reno NV'') = None"
    "cp CHR '','' \<notin> set (str ''PO Box Reno NV'')"
    "\<not> list_ex (is_decimal sample_unicode) (str ''PO Box Reno NV'')"
    by code_simp+
  then show ?thesis
    using extractors_total_and_well_formed [of sample_unicode "str ''PO Box Reno NV''"] by blast
qed

section \<open>The extraction of addresses\<close>

lemma foldl_filter_step: "foldl (filter_step U) acc raw = acc @ filter (email_kept U) raw"
  by (induction raw arbitrary: acc) (simp_all add: filter_step_def email_kept_def Let_def)

lemma foldl_seen_step:
  "foldl (seen_step U) (seen, result) xs
     = (seen \<union> lower U ` set xs, result @ dedup_ci U (filter (\<lambda>y. lower U y \<notin> seen) xs))"
proof (induction xs arbitrary: seen result)
  case Nil
  then show ?case by simp
next
  case (Cons x xs)
  show ?case
  proof (cases "lower U x \<in> seen")
    case True
    then have "seen_step U (seen, result) x = (seen, result)"
      by (simp add: seen_step_def)
    with True show ?thesis
      by (auto simp: Cons.IH)
  next
    case False
    then have step: "seen_step U (seen, result) x = (insert (lower U x) seen, result @ [x])"
      by (simp add: seen_step_def)
    have "filter (\<lambda>y. lower U y \<notin> insert (lower U x) seen) xs
        = filter (\<lambda>y. lower U y \<noteq> lower U x) (filter (\<lambda>y. lower U y \<notin> seen) xs)"
      by (induction xs) auto
    with False show ?thesis
      by (auto simp: step Cons.IH)
  qed
qed

text \<open>
  Claim C8, as the source has it. \<open>extract_emails\<close> returns the matches of the address
  pattern, without those whose lower-case form contains an entry of the junk list and
  without those of 80 characters or more, each kept once up to case, in the order of
  first appearance. On \<open>contact us at info@example.com or sales@realbiz.com\<close> it
  returns \<open>sales@realbiz.com\<close> alone, and on the empty string the empty list.
\<close>

theorem extract_emails_filtered_deduplicated:
  "extract_emails U html = dedup_ci U (filter (email_kept U) (re_findall email_re html))
   \<and> extract_emails U (str ''contact us at info@example.com or sales@realbiz.com'') = [(str ''sales@realbiz.com'')]
   \<and> extract_emails U (str '''') = []"
proof -
  have "extract_emails U html = dedup_ci U (filter (email_kept U) (re_findall email_re html))"
    by (simp add: extract_emails_def Let_def foldl_filter_step foldl_seen_step)
  moreover have "extract_emails U (str ''contact us at info@example.com or sales@realbiz.com'')
      = [(str ''sales@realbiz.com'')]"
    by code_simp
  moreover have "extract_emails U (str '''') = []"
    by code_simp
  ultimately show ?thesis
    by simp
qed

theorem extract_emails_filtered_deduplicated_witness:
  "extract_emails sample_unicode (str ''Mail a@b.co or A@B.CO'') = [(str ''a@b.co'')]"
proof -
  have "dedup_ci sample_unicode (filter (email_kept sample_unicode) (re_findall email_re (str ''Mail a@b.co or A@B.CO''))) = [(str ''a@b.co'')]"
    by code_simp
  then show ?thesis
    using extract_emails_filtered_deduplicated [of sample_unicode "str ''Mail a@b.co or A@B.CO''"] by simp
qed

text \<open>
  The claim as worded fails: an address of exactly 80 characters does not exceed 80
  characters and contains no junk entry, and it is dropped.
\<close>

theorem extract_emails_drops_80_characters:
  "length long_address = 80
   \<and> re_findall email_re long_address = [long_address]
   \<and> \<not> list_ex (\<lambda>j. sublist j (lower sample_unicode long_address)) junk
   \<and> extract_emails_as_claimed sample_unicode long_address = [long_address]
   \<and> extract_emails sample_unicode long_address = []"
  by code_simp


section \<open>Enrichment from the websites\<close>

lemma enrich_frame_refl: "enrich_frame net c c"
  by (simp add: enrich_frame_def)

lemma enrich_company_frame:
  assumes "net n (website c) = Response 200 body final meta"
  shows "enrich_frame net c (enrich_company U body meta c)"
proof -
  let ?c' = "enrich_company U body meta c"
  have eq: "?c' = c\<lparr>email := email ?c', description := description ?c'\<rparr>"
    by (simp add: enrich_company_def Let_def split: option.splits)
  have em: "email c \<noteq> [] \<longrightarrow> email ?c' = email c"
    by (simp add: enrich_company_def Let_def split: option.splits)
  have de: "description c \<noteq> [] \<longrightarrow> description ?c' = description c"
    by (simp add: enrich_company_def Let_def split: option.splits)
  have wr: "description ?c' \<noteq> description c \<longrightarrow>
      (\<exists>content. meta = Some content
         \<and> description ?c' = take 500 (case content of Some s \<Rightarrow> s | None \<Rightarrow> []))"
    by (simp add: enrich_company_def Let_def split: option.splits)
  have "description ?c' \<noteq> description c \<longrightarrow>
      length (description ?c') \<le> 500
      \<and> (\<exists>n body final content.
             net n (website c) = Response 200 body final (Some content)
             \<and> description ?c' = take 500 (case content of Some s \<Rightarrow> s | None \<Rightarrow> []))"
  proof
    assume "description ?c' \<noteq> description c"
    with wr obtain content where c: "meta = Some content"
      "description ?c' = take 500 (case content of Some s \<Rightarrow> s | None \<Rightarrow> [])"
      by blast
    then have "length (description ?c') \<le> 500"
      by simp
    moreover have "net n (website c) = Response 200 body final (Some content)"
      using assms c(1) by simp
    ultimately show "length (description ?c') \<le> 500
      \<and> (\<exists>n body final content.
             net n (website c) = Response 200 body final (Some content)
             \<and> description ?c' = take 500 (case content of Some s \<Rightarrow> s | None \<Rightarrow> []))"
      using c(2) by blast
  qed
  with eq em de show ?thesis
    unfolding enrich_frame_def by blast
qed

lemma visit_frame: "enrich_frame net c (fst (visit U net n c))"
proof (cases "net n (website c)")
  case Raises
  then show ?thesis by (simp add: visit_def enrich_frame_refl)
next
  case (Response status body final meta)
  show ?thesis
  proof (cases "status = 200")
    case True
    with Response enrich_company_frame[of net n c body final meta] show ?thesis
      by (simp add: visit_def)
  next
    case False
    with Response show ?thesis by (simp add: visit_def enrich_frame_refl)
  qed
qed

lemma list_all2_frame_refl: "list_all2 (enrich_frame net) cs cs"
  by (simp add: list_all2_refl enrich_frame_refl)

lemma enrich_loop_frame:
  "enrich_loop U net enriched sent cs = (out, e, l) \<Longrightarrow> list_all2 (enrich_frame net) cs out"
proof (induction cs arbitrary: enriched sent out e l)
  case Nil
  then show ?case by simp
next
  case (Cons c cs)
  show ?case
  proof (cases "eligible c")
    case False
    obtain out' e' l' where rec: "enrich_loop U net enriched sent cs = (out', e', l')"
      by (cases "enrich_loop U net enriched sent cs") auto
    with Cons.prems False have "out = c # out'"
      by simp
    with Cons.IH[OF rec] show ?thesis
      by (simp add: enrich_frame_refl)
  next
    case True
    show ?thesis
    proof (cases "enriched \<ge> 200")
      case True
      with Cons.prems \<open>eligible c\<close> have "out = c # cs"
        by simp
      then show ?thesis
        by (simp add: list_all2_frame_refl enrich_frame_refl)
    next
      case False
      obtain c' counted where v: "visit U net (length sent) c = (c', counted)"
        by (cases "visit U net (length sent) c") auto
      obtain out' e' l' where rec: "enrich_loop U net (if counted then enriched + 1 else enriched)
          (sent @ [website c]) cs = (out', e', l')"
        by (cases "enrich_loop U net (if counted then enriched + 1 else enriched)
          (sent @ [website c]) cs") auto
      with Cons.prems \<open>eligible c\<close> False v have "out = c' # out'"
        by simp
      moreover have "enrich_frame net c c'"
        using visit_frame[where U = U and net = net and c = c and n = "length sent"] v by simp
      ultimately show ?thesis
        using Cons.IH[OF rec] by simp
    qed
  qed
qed

text \<open>
  Claim C6. \<open>enrich_from_websites\<close> returns as many records as it was given, and each
  differs from the record it was given in \<open>email\<close> and \<open>description\<close> at most. An
  e-mail address or a description that was not empty is still the same. A description that
  has changed has at most 500 characters: it is the first 500 characters of the content
  of the meta description tag of a page that the website of the record answered with
  status 200.
\<close>

theorem enrichment_only_fills_empty_email_description:
  assumes "enrich_from_websites U net companies = (out, enriched, sent)"
  shows "length out = length companies
     \<and> (\<forall>i < length companies.
           out ! i = (companies ! i)\<lparr>email := email (out ! i), description := description (out ! i)\<rparr>
           \<and> (email (companies ! i) \<noteq> [] \<longrightarrow> email (out ! i) = email (companies ! i))
           \<and> (description (companies ! i) \<noteq> []
                \<longrightarrow> description (out ! i) = description (companies ! i))
           \<and> (description (out ! i) \<noteq> description (companies ! i) \<longrightarrow>
                length (description (out ! i)) \<le> 500
                \<and> (\<exists>n body final content.
                      net n (website (companies ! i)) = Response 200 body final (Some content)
                      \<and> description (out ! i)
                          = take 500 (case content of Some s \<Rightarrow> s | None \<Rightarrow> []))))"
proof -
  from assms have all: "list_all2 (enrich_frame net) companies out"
    unfolding enrich_from_websites_def by (rule enrich_loop_frame)
  then have len: "length out = length companies"
    by (simp add: list_all2_lengthD)
  have "enrich_frame net (companies ! i) (out ! i)" if "i < length companies" for i
    using all that by (rule list_all2_nthD)
  with len show ?thesis
    unfolding enrich_frame_def by blast
qed

theorem enrichment_only_fills_empty_email_description_witness:
  "enrich_from_websites sample_unicode net_contact [acme_full, acme_site]
     = ([acme_full, acme_site\<lparr>description := str ''Commercial-insurance-brokers''\<rparr>], 2,
        [str ''http://acme.test'', str ''http://acme.test''])
   \<and> email acme_full \<noteq> [] \<and> description acme_full \<noteq> []
   \<and> description (acme_site\<lparr>description := str ''Commercial-insurance-brokers''\<rparr>)
       \<noteq> description acme_site
   \<and> length (description (acme_site\<lparr>description := str ''Commercial-insurance-brokers''\<rparr>))
       \<le> 500"
proof -
  let ?out = "[acme_full, acme_site\<lparr>description := str ''Commercial-insurance-brokers''\<rparr>]"
  have run: "enrich_from_websites sample_unicode net_contact [acme_full, acme_site]
     = (?out, 2, [str ''http://acme.test'', str ''http://acme.test''])"
    by code_simp
  have h: "email acme_full \<noteq> []" "description acme_full \<noteq> []"
    "description (acme_site\<lparr>description := str ''Commercial-insurance-brokers''\<rparr>)
       \<noteq> description acme_site"
    by code_simp+
  note t = enrichment_only_fills_empty_email_description [where U = sample_unicode, OF run]
  then have "description (?out ! 1) \<noteq> description ([acme_full, acme_site] ! 1)
      \<longrightarrow> length (description (?out ! 1)) \<le> 500"
    by simp
  with h(3)
  have "length (description (acme_site\<lparr>description := str ''Commercial-insurance-brokers''\<rparr>))
      \<le> 500"
    by simp
  with run h show ?thesis
    by blast
qed

text \<open>
  Every request of \<open>enrich_from_websites\<close> goes to the website of a record, one for
  each eligible record at most and in the order of the records; and a new address
  comes from the body of such a page.
\<close>

lemma enrich_loop_sent:
  "enrich_loop U net enriched sent cs = (out, e, l)
   \<Longrightarrow> \<exists>k. l = sent @ take k (map website (filter eligible cs))"
proof (induction cs arbitrary: enriched sent out e l)
  case Nil
  then show ?case by simp
next
  case (Cons c cs)
  show ?case
  proof (cases "eligible c")
    case False
    obtain out' e' l' where rec: "enrich_loop U net enriched sent cs = (out', e', l')"
      by (cases "enrich_loop U net enriched sent cs") auto
    with Cons.prems False have "l = l'"
      by simp
    with Cons.IH[OF rec] False show ?thesis
      by simp
  next
    case True
    show ?thesis
    proof (cases "enriched \<ge> 200")
      case True
      with Cons.prems \<open>eligible c\<close> have "l = sent @ take 0 (map website (filter eligible (c # cs)))"
        by simp
      then show ?thesis by blast
    next
      case False
      obtain c' counted where v: "visit U net (length sent) c = (c', counted)"
        by (cases "visit U net (length sent) c") auto
      obtain out' e' l' where rec: "enrich_loop U net (if counted then enriched + 1 else enriched)
          (sent @ [website c]) cs = (out', e', l')"
        by (cases "enrich_loop U net (if counted then enriched + 1 else enriched)
          (sent @ [website c]) cs") auto
      with Cons.prems \<open>eligible c\<close> False v have "l = l'"
        by simp
      moreover from Cons.IH[OF rec] obtain k
        where "l' = (sent @ [website c]) @ take k (map website (filter eligible cs))"
        by blast
      ultimately have "l = sent @ take (Suc k) (map website (filter eligible (c # cs)))"
        using \<open>eligible c\<close> by simp
      then show ?thesis by blast
    qed
  qed
qed

lemma enrich_loop_rel:
  assumes refl: "\<And>c. R c c" and vis: "\<And>n c. R c (fst (visit U net n c))"
  shows "enrich_loop U net enriched sent cs = (out, e, l) \<Longrightarrow> list_all2 R cs out"
proof (induction cs arbitrary: enriched sent out e l)
  case Nil
  then show ?case by simp
next
  case (Cons c cs)
  show ?case
  proof (cases "eligible c")
    case False
    obtain out' e' l' where rec: "enrich_loop U net enriched sent cs = (out', e', l')"
      by (cases "enrich_loop U net enriched sent cs") auto
    with Cons.prems False have "out = c # out'"
      by simp
    with Cons.IH[OF rec] show ?thesis
      by (simp add: refl)
  next
    case True
    show ?thesis
    proof (cases "enriched \<ge> 200")
      case True
      with Cons.prems \<open>eligible c\<close> have "out = c # cs"
        by simp
      then show ?thesis
        by (simp add: list_all2_refl refl)
    next
      case False
      obtain c' counted where v: "visit U net (length sent) c = (c', counted)"
        by (cases "visit U net (length sent) c") auto
      obtain out' e' l' where rec: "enrich_loop U net (if counted then enriched + 1 else enriched)
          (sent @ [website c]) cs = (out', e', l')"
        by (cases "enrich_loop U net (if counted then enriched + 1 else enriched)
          (sent @ [website c]) cs") auto
      with Cons.prems \<open>eligible c\<close> False v have "out = c' # out'"
        by simp
      moreover have "R c c'"
        using vis[of c "length sent"] v by simp
      ultimately show ?thesis
        using Cons.IH[OF rec] by simp
    qed
  qed
qed

lemma visit_email: "email_from_main_page U net c (fst (visit U net n c))"
proof (cases "net n (website c)")
  case Raises
  then show ?thesis by (simp add: visit_def email_from_main_page_def)
next
  case (Response status body final meta)
  show ?thesis
  proof (cases "status = 200")
    case True
    have "email (enrich_company U body meta c) \<noteq> email c
        \<longrightarrow> first_business_email U (re_findall email_re body)
              = Some (email (enrich_company U body meta c))"
      by (simp add: enrich_company_def Let_def split: option.splits)
    with True Response show ?thesis
      unfolding email_from_main_page_def visit_def by auto
  next
    case False
    with Response show ?thesis by (simp add: visit_def email_from_main_page_def)
  qed
qed

lemma enrich_from_websites_main_page_only:
  assumes "enrich_from_websites U net companies = (out, enriched, sent)"
  shows "prefix sent (map website (filter eligible companies))
     \<and> (\<forall>i < length companies. email_from_main_page U net (companies ! i) (out ! i))"
proof -
  from assms have run: "enrich_loop U net 0 [] companies = (out, enriched, sent)"
    by (simp add: enrich_from_websites_def)
  from enrich_loop_sent[OF run] have "prefix sent (map website (filter eligible companies))"
    by (auto simp: take_is_prefix)
  moreover have "list_all2 (email_from_main_page U net) companies out"
    using run
  proof (rule enrich_loop_rel[rotated 2])
    show "email_from_main_page U net c c" for c
      by (simp add: email_from_main_page_def)
    show "email_from_main_page U net c (fst (visit U net n c))" for n c
      by (rule visit_email)
  qed
  then have "email_from_main_page U net (companies ! i) (out ! i)" if "i < length companies" for i
    using that by (rule list_all2_nthD)
  ultimately show ?thesis
    by blast
qed

lemma visit_never_200: "never_200 net \<Longrightarrow> visit U net n c = (c, False)"
proof -
  assume "never_200 net"
  then have "case net n (website c) of Raises \<Rightarrow> True
     | Response status body final meta \<Rightarrow> status \<noteq> 200"
    unfolding never_200_def by blast
  then show ?thesis
    by (simp add: visit_def split: fetch_result.splits)
qed

lemma enrich_loop_never_200:
  "never_200 net \<Longrightarrow> enriched < 200
   \<Longrightarrow> enrich_loop U net enriched sent cs = (cs, enriched, sent @ map website (filter eligible cs))"
  by (induction cs arbitrary: sent) (simp_all add: visit_never_200)

lemma never_200_net_down: "never_200 net_down"
  by (simp add: never_200_def net_down_def)

lemma eligible_acme_site: "eligible acme_site"
  by code_simp

text \<open>
  When every request is answered with status 200, the cap works on the requests: with
  more than 200 eligible records, 200 requests are sent, and every record from the
  point where 200 eligible records have been passed is returned as it was.
\<close>

lemma visit_always_200: "always_200 net \<Longrightarrow> snd (visit U net n c) = True"
proof -
  assume "always_200 net"
  then have "case net n (website c) of Raises \<Rightarrow> False
     | Response status body final meta \<Rightarrow> status = 200"
    unfolding always_200_def by blast
  then show ?thesis
    by (simp add: visit_def split: fetch_result.splits)
qed

lemma enrich_loop_always_200_count:
  assumes "always_200 net"
  shows "enrich_loop U net enriched sent cs = (out, e, l) \<Longrightarrow> enriched \<le> 200
    \<Longrightarrow> length l = length sent + min (200 - enriched) (length (filter eligible cs))
        \<and> e = enriched + min (200 - enriched) (length (filter eligible cs))"
proof (induction cs arbitrary: enriched sent out e l)
  case Nil
  then show ?case by simp
next
  case (Cons c cs)
  show ?case
  proof (cases "eligible c")
    case False
    obtain out' e' l' where rec: "enrich_loop U net enriched sent cs = (out', e', l')"
      by (cases "enrich_loop U net enriched sent cs") auto
    with Cons.prems(1) False have "e = e'" "l = l'"
      by simp_all
    with Cons.IH[OF rec Cons.prems(2)] False show ?thesis
      by simp
  next
    case True
    show ?thesis
    proof (cases "enriched \<ge> 200")
      case True
      with Cons.prems \<open>eligible c\<close> show ?thesis
        by simp
    next
      case False
      obtain c' counted where v: "visit U net (length sent) c = (c', counted)"
        by (cases "visit U net (length sent) c") auto
      with visit_always_200[OF assms, where U = U and n = "length sent" and c = c]
      have counted: "counted"
        by simp
      obtain out' e' l' where rec: "enrich_loop U net (enriched + 1) (sent @ [website c]) cs
          = (out', e', l')"
        by (cases "enrich_loop U net (enriched + 1) (sent @ [website c]) cs") auto
      with Cons.prems(1) \<open>eligible c\<close> False v counted have "e = e'" "l = l'"
        by simp_all
      moreover from False have "enriched + 1 \<le> 200"
        by simp
      from Cons.IH[OF rec this]
      have "length l' = length (sent @ [website c])
               + min (200 - (enriched + 1)) (length (filter eligible cs))
          \<and> e' = enriched + 1 + min (200 - (enriched + 1)) (length (filter eligible cs))" .
      ultimately show ?thesis
        using False \<open>eligible c\<close> by (auto simp: min_def)
    qed
  qed
qed

lemma enrich_loop_after_cap:
  "enrich_loop U net enriched sent cs = (out, e, l) \<Longrightarrow> enriched \<ge> 200 \<Longrightarrow> out = cs"
proof (induction cs arbitrary: out e l)
  case Nil
  then show ?case by simp
next
  case (Cons c cs)
  show ?case
  proof (cases "eligible c")
    case False
    obtain out' e' l' where rec: "enrich_loop U net enriched sent cs = (out', e', l')"
      by (cases "enrich_loop U net enriched sent cs") auto
    with Cons.prems(1) False have "out = c # out'"
      by simp
    with Cons.IH[OF rec Cons.prems(2)] show ?thesis
      by simp
  next
    case True
    with Cons.prems show ?thesis
      by simp
  qed
qed

lemma enrich_loop_always_200_rest:
  assumes "always_200 net"
  shows "enrich_loop U net enriched sent cs = (out, e, l) \<Longrightarrow> enriched \<le> 200
    \<Longrightarrow> 200 - enriched \<le> length (filter eligible (take i cs))
    \<Longrightarrow> drop i out = drop i cs"
proof (induction cs arbitrary: enriched sent out e l i)
  case Nil
  then show ?case by simp
next
  case (Cons c cs)
  show ?case
  proof (cases "enriched \<ge> 200")
    case True
    from enrich_loop_after_cap[OF Cons.prems(1) True] show ?thesis
      by simp
  next
    case False
    then obtain i' where i: "i = Suc i'"
      using Cons.prems(3) by (cases i) auto
    show ?thesis
    proof (cases "eligible c")
      case False
      obtain out' e' l' where rec: "enrich_loop U net enriched sent cs = (out', e', l')"
        by (cases "enrich_loop U net enriched sent cs") auto
      with Cons.prems(1) False have out: "out = c # out'"
        by simp
      have "200 - enriched \<le> length (filter eligible (take i' cs))"
        using Cons.prems(3) i False by simp
      from Cons.IH[OF rec Cons.prems(2) this] out i show ?thesis
        by simp
    next
      case True
      obtain c' counted where v: "visit U net (length sent) c = (c', counted)"
        by (cases "visit U net (length sent) c") auto
      with visit_always_200[OF assms, where U = U and n = "length sent" and c = c]
      have counted: "counted"
        by simp
      obtain out' e' l' where rec: "enrich_loop U net (enriched + 1) (sent @ [website c]) cs
          = (out', e', l')"
        by (cases "enrich_loop U net (enriched + 1) (sent @ [website c]) cs") auto
      with Cons.prems(1) True \<open>\<not> 200 \<le> enriched\<close> v counted have out: "out = c' # out'"
        by simp
      have le: "enriched + 1 \<le> 200"
        using \<open>\<not> 200 \<le> enriched\<close> by simp
      have "200 - (enriched + 1) \<le> length (filter eligible (take i' cs))"
        using Cons.prems(3) i True by simp
      from Cons.IH[OF rec le this] out i show ?thesis
        by simp
    qed
  qed
qed

lemma enrich_cap_when_every_request_succeeds:
  assumes "always_200 net" and "enrich_from_websites U net cs = (out, e, l)"
    and "200 < length (filter eligible cs)"
  shows "length l = 200 \<and> e = 200
    \<and> (\<forall>i. 200 \<le> length (filter eligible (take i cs)) \<longrightarrow> drop i out = drop i cs)"
proof -
  from assms(2) have run: "enrich_loop U net 0 [] cs = (out, e, l)"
    by (simp add: enrich_from_websites_def)
  from enrich_loop_always_200_count[OF assms(1) run] assms(3) have "length l = 200 \<and> e = 200"
    by simp
  moreover have "drop i out = drop i cs" if "200 \<le> length (filter eligible (take i cs))" for i
    using enrich_loop_always_200_rest[OF assms(1) run, of i] that by simp
  ultimately show ?thesis
    by blast
qed

text \<open>
  Claim C5 does not hold of the source. The counter that is compared with the cap is
  raised only after a page has answered with status 200, so a request that fails does
  not count: with 201 eligible records and a network that answers every request with
  status 503, the code sends 201 requests, where the claim allows 200.
\<close>

theorem enrichment_cap_counts_successes_only:
  "length (filter eligible (replicate 201 acme_site)) = 201
   \<and> enrich_from_websites sample_unicode net_down (replicate 201 acme_site)
       = (replicate 201 acme_site, 0, replicate 201 (str ''http://acme.test''))
   \<and> length (snd (snd (enrich_from_websites sample_unicode net_down (replicate 201 acme_site)))) = 201"
proof -
  have w: "website acme_site = (str ''http://acme.test'')"
    by (simp add: acme_site_def)
  have "enrich_from_websites sample_unicode net_down (replicate 201 acme_site)
       = (replicate 201 acme_site, 0, replicate 201 (str ''http://acme.test''))"
    unfolding enrich_from_websites_def
    by (simp add: enrich_loop_never_200 never_200_net_down eligible_acme_site w map_replicate_const)
  then show ?thesis
    by (simp add: eligible_acme_site)
qed


lemma try_suffixes_none:
  "(\<forall>i < length sfxs. yields U net (length sent + i) (base @ sfxs ! i) = [])
   \<Longrightarrow> try_suffixes U net base sent sfxs = ([], sent @ map ((@) base) sfxs)"
proof (induction sfxs arbitrary: sent)
  case Nil
  then show ?case by simp
next
  case (Cons sfx rest)
  from Cons.prems have here: "yields U net (length sent) (base @ sfx) = []"
    by fastforce
  have "\<forall>i < length rest. yields U net (length (sent @ [base @ sfx]) + i) (base @ rest ! i) = []"
  proof (intro allI impI)
    fix i assume "i < length rest"
    then have "Suc i < length (sfx # rest)" by simp
    with Cons.prems have "yields U net (length sent + Suc i) (base @ (sfx # rest) ! Suc i) = []"
      by blast
    then show "yields U net (length (sent @ [base @ sfx]) + i) (base @ rest ! i) = []"
      by simp
  qed
  from Cons.IH[OF this] have rec: "try_suffixes U net base (sent @ [base @ sfx]) rest
      = ([], sent @ map ((@) base) (sfx # rest))"
    by simp
  from here show ?case
    by (auto simp: yields_def rec split: fetch_result.splits if_splits list.splits)
qed

lemma try_suffixes_first:
  "j < length sfxs
   \<Longrightarrow> (\<forall>i < j. yields U net (length sent + i) (base @ sfxs ! i) = [])
   \<Longrightarrow> yields U net (length sent + j) (base @ sfxs ! j) = e # es
   \<Longrightarrow> try_suffixes U net base sent sfxs = (e, sent @ map ((@) base) (take (Suc j) sfxs))"
proof (induction sfxs arbitrary: sent j)
  case Nil
  then show ?case by simp
next
  case (Cons sfx rest)
  show ?case
  proof (cases j)
    case 0
    with Cons.prems(3) show ?thesis
      by (auto simp: yields_def split: fetch_result.splits if_splits list.splits)
  next
    case (Suc j')
    with Cons.prems(2) have here: "yields U net (length sent) (base @ sfx) = []"
      by fastforce
    have j': "j' < length rest"
      using Cons.prems(1) Suc by simp
    have before: "\<forall>i < j'. yields U net (length (sent @ [base @ sfx]) + i) (base @ rest ! i) = []"
    proof (intro allI impI)
      fix i assume "i < j'"
      then have "Suc i < j" using Suc by simp
      with Cons.prems(2) have "yields U net (length sent + Suc i) (base @ (sfx # rest) ! Suc i) = []"
        by blast
      then show "yields U net (length (sent @ [base @ sfx]) + i) (base @ rest ! i) = []"
        by simp
    qed
    have at: "yields U net (length (sent @ [base @ sfx]) + j') (base @ rest ! j') = e # es"
      using Cons.prems(3) Suc by simp
    from Cons.IH[OF j' before at] have rec: "try_suffixes U net base (sent @ [base @ sfx]) rest
        = (e, sent @ map ((@) base) (take (Suc j) (sfx # rest)))"
      using Suc by simp
    from here show ?thesis
      by (auto simp: yields_def rec split: fetch_result.splits if_splits list.splits)
  qed
qed

lemma scrape_contact_pages:
  assumes "site \<noteq> []" and "prefix (str ''http'') site"
    and "net 0 site = Response 200 body final meta" and "extract_emails U body = []"
    and "base_of final = Some base"
  shows "(j < length contact_suffixes
          \<and> (\<forall>i < j. yields U net (Suc i) (base @ contact_suffixes ! i) = [])
          \<and> yields U net (Suc j) (base @ contact_suffixes ! j) = e # es
          \<longrightarrow> scrape_website_for_email U base_of net site
                = (e, site # map ((@) base) (take (Suc j) contact_suffixes))
              \<and> (sf_row row \<and> website row = site \<and> email row = []
                   \<longrightarrow> fst (phase2_row U base_of net row) = row\<lparr>email := e\<rparr>))
     \<and> ((\<forall>i < length contact_suffixes. yields U net (Suc i) (base @ contact_suffixes ! i) = [])
          \<longrightarrow> scrape_website_for_email U base_of net site
                = ([], site # map ((@) base) contact_suffixes))"
proof -
  have scrape: "scrape_website_for_email U base_of net site
      = try_suffixes U net base [site] contact_suffixes"
    using assms by (simp add: scrape_website_for_email_def)
  have first: "scrape_website_for_email U base_of net site
                = (e, site # map ((@) base) (take (Suc j) contact_suffixes))
              \<and> (sf_row row \<and> website row = site \<and> email row = []
                   \<longrightarrow> fst (phase2_row U base_of net row) = row\<lparr>email := e\<rparr>)"
    if j: "j < length contact_suffixes"
      and before: "\<forall>i < j. yields U net (Suc i) (base @ contact_suffixes ! i) = []"
      and at: "yields U net (Suc j) (base @ contact_suffixes ! j) = e # es"
  proof -
    have "try_suffixes U net base [site] contact_suffixes
        = (e, [site] @ map ((@) base) (take (Suc j) contact_suffixes))"
      using j before at by (intro try_suffixes_first) simp_all
    with scrape have res: "scrape_website_for_email U base_of net site
        = (e, site # map ((@) base) (take (Suc j) contact_suffixes))"
      by simp
    have "fst (phase2_row U base_of net row) = row\<lparr>email := e\<rparr>"
      if "sf_row row" "website row = site" "email row = []"
      using that res assms(1) by (cases "e = []") (simp_all add: phase2_row_def)
    with res show ?thesis
      by blast
  qed
  have none: "scrape_website_for_email U base_of net site
                = ([], site # map ((@) base) contact_suffixes)"
    if "\<forall>i < length contact_suffixes. yields U net (Suc i) (base @ contact_suffixes ! i) = []"
  proof -
    have "try_suffixes U net base [site] contact_suffixes
        = ([], [site] @ map ((@) base) contact_suffixes)"
      using that by (intro try_suffixes_none) simp
    with scrape show ?thesis
      by simp
  qed
  from first none show ?thesis
    by blast
qed


text \<open>
  Claim C7, as the source has it: the contact pages are tried by
  \<open>scrape_website_for_email\<close> of \<open>enrich_sf.py\<close>. When the main page has answered
  with status 200 and holds no e-mail address, the function requests the pages \<open>/contact\<close>,
  \<open>/contact-us\<close>, \<open>/about\<close>, \<open>/about-us\<close> and \<open>/contactus\<close> of the scheme and host
  of the final URL of the main page, in this order. It stops at the first page that
  answers with status 200 and holds one, and returns the first address of that
  page, which phase 2 stores in a row of \<open>sf_indices\<close> that has none; a row outside
  \<open>sf_indices\<close> is left alone and nothing is requested for it. When no page holds an
  address the function has requested all five and returns the empty string.
  \<open>enrich_from_websites\<close> of \<open>scraper.py\<close> requests the websites of the records and
  nothing else, and takes a new address from the body of such a page only.
\<close>

theorem contact_pages_tried_in_order:
  "(site \<noteq> [] \<and> prefix (str ''http'') site \<and> net 0 site = Response 200 body final meta
      \<and> extract_emails U body = [] \<and> base_of final = Some base
    \<longrightarrow>
      (j < length contact_suffixes
         \<and> (\<forall>i < j. yields U net (Suc i) (base @ contact_suffixes ! i) = [])
         \<and> yields U net (Suc j) (base @ contact_suffixes ! j) = e # es
       \<longrightarrow> scrape_website_for_email U base_of net site
             = (e, site # map ((@) base) (take (Suc j) contact_suffixes))
           \<and> (sf_row row \<and> website row = site \<and> email row = []
                \<longrightarrow> fst (phase2_row U base_of net row) = row\<lparr>email := e\<rparr>))
      \<and> ((\<forall>i < length contact_suffixes. yields U net (Suc i) (base @ contact_suffixes ! i) = [])
          \<longrightarrow> scrape_website_for_email U base_of net site
                = ([], site # map ((@) base) contact_suffixes)))
   \<and> (\<not> sf_row row \<longrightarrow> phase2_row U base_of net row = (row, []))
   \<and> (enrich_from_websites U net companies = (out, enriched, sent)
        \<longrightarrow> prefix sent (map website (filter eligible companies))
            \<and> (\<forall>i < length companies.
                  email (out ! i) \<noteq> email (companies ! i)
                  \<longrightarrow> (\<exists>n body' final' meta'.
                         net n (website (companies ! i)) = Response 200 body' final' meta'
                         \<and> first_business_email U (re_findall email_re body')
                             = Some (email (out ! i)))))"
proof -
  have "\<not> sf_row row \<longrightarrow> phase2_row U base_of net row = (row, [])"
    by (simp add: phase2_row_def)
  moreover have "prefix sent (map website (filter eligible companies))
            \<and> (\<forall>i < length companies.
                  email (out ! i) \<noteq> email (companies ! i)
                  \<longrightarrow> (\<exists>n body' final' meta'.
                         net n (website (companies ! i)) = Response 200 body' final' meta'
                         \<and> first_business_email U (re_findall email_re body')
                             = Some (email (out ! i))))"
    if "enrich_from_websites U net companies = (out, enriched, sent)"
    using enrich_from_websites_main_page_only[OF that]
    unfolding email_from_main_page_def by blast
  ultimately show ?thesis
    using scrape_contact_pages[where U = U and base_of = base_of and net = net and site = site
        and body = body and final = final and meta = meta and base = base and j = j and e = e
        and es = es and row = row]
    by blast
qed

theorem contact_pages_tried_in_order_witness:
  "net_contact 0 (str ''http://acme.test'')
     = Response 200 main_page (str ''http://acme.test'')
         (Some (Some (str ''Commercial-insurance-brokers'')))
   \<and> extract_emails sample_unicode main_page = []
   \<and> yields sample_unicode net_contact (Suc 0) (str ''http://acme.test'' @ contact_suffixes ! 0)
       = [str ''info@acme.test'']
   \<and> sf_row acme_sf \<and> \<not> sf_row acme_site
   \<and> scrape_website_for_email sample_unicode Some net_contact (str ''http://acme.test'')
       = (str ''info@acme.test'', [str ''http://acme.test'', str ''http://acme.test/contact''])
   \<and> fst (phase2_row sample_unicode Some net_contact acme_sf)
       = acme_sf\<lparr>email := str ''info@acme.test''\<rparr>
   \<and> phase2_row sample_unicode Some net_contact acme_site = (acme_site, [])
   \<and> yields sample_unicode net_plain (Suc 0) (str ''http://acme.test'' @ contact_suffixes ! 0) = []
   \<and> scrape_website_for_email sample_unicode Some net_plain (str ''http://acme.test'')
       = ([], map str [''http://acme.test'', ''http://acme.test/contact'',
              ''http://acme.test/contact-us'', ''http://acme.test/about'',
              ''http://acme.test/about-us'', ''http://acme.test/contactus''])
   \<and> enrich_from_websites sample_unicode net_mail [acme_site]
       = ([acme_site\<lparr>email := str ''info@acme.test''\<rparr>], 1, [str ''http://acme.test''])
   \<and> prefix [str ''http://acme.test''] (map website (filter eligible [acme_site]))
   \<and> first_business_email sample_unicode (re_findall email_re (str ''<p>info@acme.test</p>''))
       = Some (str ''info@acme.test'')"
proof -
  let ?site = "str ''http://acme.test''"
  have h: "?site \<noteq> []" "prefix (str ''http'') ?site"
    "net_contact 0 ?site
      = Response 200 main_page ?site (Some (Some (str ''Commercial-insurance-brokers'')))"
    "extract_emails sample_unicode main_page = []"
    by code_simp+
  have h': "net_plain 0 ?site = Response 200 (str ''<html>Welcome</html>'') ?site None"
    "extract_emails sample_unicode (str ''<html>Welcome</html>'') = []"
    by code_simp+
  have y: "yields sample_unicode net_contact (Suc 0) (?site @ contact_suffixes ! 0)
      = [str ''info@acme.test'']"
    by code_simp
  have j: "0 < length contact_suffixes"
    by (simp add: contact_suffixes_def)
  have w: "sf_row acme_sf" "website acme_sf = ?site" "email acme_sf = []" "\<not> sf_row acme_site"
    by code_simp+
  note t = contact_pages_tried_in_order [where U = sample_unicode and base_of = Some
      and base = ?site and net = net_contact and site = ?site and body = main_page
      and final = ?site and meta = "Some (Some (str ''Commercial-insurance-brokers''))"
      and j = 0 and e = "str ''info@acme.test''" and es = "[]" and row = acme_sf]
  from t h y j w have first: "scrape_website_for_email sample_unicode Some net_contact ?site
       = (str ''info@acme.test'', ?site # map ((@) ?site) (take (Suc 0) contact_suffixes))
     \<and> fst (phase2_row sample_unicode Some net_contact acme_sf)
         = acme_sf\<lparr>email := str ''info@acme.test''\<rparr>"
    by simp
  have c: "?site # map ((@) ?site) (take (Suc 0) contact_suffixes)
      = [str ''http://acme.test'', str ''http://acme.test/contact'']"
    by code_simp
  have n: "\<forall>i < length contact_suffixes.
         yields sample_unicode net_plain (Suc i) (?site @ contact_suffixes ! i) = []"
    by (simp add: contact_suffixes_def yields_def net_plain_def str_def cp_def All_less_Suc2)
  have run: "enrich_from_websites sample_unicode net_mail [acme_site]
       = ([acme_site\<lparr>email := str ''info@acme.test''\<rparr>], 1, [?site])"
    by code_simp
  note t' = contact_pages_tried_in_order [where U = sample_unicode and base_of = Some
      and base = ?site and net = net_plain and site = ?site
      and body = "str ''<html>Welcome</html>''" and final = ?site and meta = None
      and j = 0 and e = "[]" and es = "[]" and row = acme_site]
  from t' h(1,2) h' n have none: "scrape_website_for_email sample_unicode Some net_plain ?site
       = ([], ?site # map ((@) ?site) contact_suffixes)"
    by blast
  have c': "?site # map ((@) ?site) contact_suffixes
      = map str [''http://acme.test'', ''http://acme.test/contact'',
              ''http://acme.test/contact-us'', ''http://acme.test/about'',
              ''http://acme.test/about-us'', ''http://acme.test/contactus'']"
    by code_simp
  from t' w(4) have out: "phase2_row sample_unicode Some net_plain acme_site = (acme_site, [])"
    by blast
  have out': "phase2_row sample_unicode Some net_contact acme_site = (acme_site, [])"
    using contact_pages_tried_in_order [where U = sample_unicode and base_of = Some
      and net = net_contact and row = acme_site] w(4) by blast
  note t'' = contact_pages_tried_in_order [where U = sample_unicode and net = net_mail
      and companies = "[acme_site]" and out = "[acme_site\<lparr>email := str ''info@acme.test''\<rparr>]"
      and enriched = 1 and sent = "[?site]"]
  from t'' run have p: "prefix [?site] (map website (filter eligible [acme_site]))"
    by blast
  have f: "first_business_email sample_unicode (re_findall email_re (str ''<p>info@acme.test</p>''))
       = Some (str ''info@acme.test'')"
    by code_simp
  from n j have "yields sample_unicode net_plain (Suc 0) (?site @ contact_suffixes ! 0) = []"
    by blast
  with first none h y w out' run p f c c' show ?thesis
    by simp
qed

text \<open>
  The claim as worded fails for \<open>enrich_from_websites\<close> of \<open>scraper.py\<close>, which reads
  the main page only: the record is eligible and has no address, the contact page holds
  one, and the function sends the one request for the main page and leaves the address
  empty.
\<close>

theorem enrich_from_websites_reads_main_page_only:
  "eligible acme_site \<and> email acme_site = []
   \<and> yields sample_unicode net_contact 1 (str ''http://acme.test'' @ str ''/contact'')
       = [str ''info@acme.test'']
   \<and> enrich_from_websites sample_unicode net_contact [acme_site]
       = ([acme_site\<lparr>description := str ''Commercial-insurance-brokers''\<rparr>], 1,
          [str ''http://acme.test''])
   \<and> email (acme_site\<lparr>description := str ''Commercial-insurance-brokers''\<rparr>) = []"
  by code_simp


end
